theory Spec2Isabelle
  imports Complex_Main "HOL-Library.AList"
begin

section \<open>Critical path of a digital circuit (critical\_path\_tool.py)\<close>

text \<open>
  The class \<^verbatim>\<open>DigitalCircuit\<close> keeps a table of component delays, a directed graph
  (a NetworkX \<^verbatim>\<open>DiGraph\<close>) and a dictionary from node ids to component types.
  \<^verbatim>\<open>find_critical_path\<close> orders the graph topologically, runs a longest-path
  relaxation with predecessor tracking, picks the OUTPUT node of greatest distance and
  walks the predecessor links back from it.

  Numbers: the delays and distances of the program are Python floats. Every delay of
  the table is a finite number, modelled as a rational; the only non-finite value the
  program creates is \<^verbatim>\<open>float('-inf')\<close>, which is a constructor of its own.
\<close>

subsection \<open>Errors and numbers\<close>

datatype error =
    NetworkXUnfeasible  \<comment> \<open>raised by \<^verbatim>\<open>nx.topological_sort\<close> on a cyclic graph\<close>
  | RuntimeError        \<comment> \<open>raised by \<^verbatim>\<open>nx.topological_sort\<close>: graph changed during iteration\<close>
  | KeyError            \<comment> \<open>a dictionary read at a missing key\<close>
  | ValueError          \<comment> \<open>\<^verbatim>\<open>max()\<close> of an empty sequence\<close>

datatype dist = NegInf | Fin rat

text \<open>\<^verbatim>\<open>x + d\<close> for a distance \<open>x\<close> and a finite delay \<open>d\<close>; \<^verbatim>\<open>-inf + d = -inf\<close>.\<close>

fun dist_add :: "dist \<Rightarrow> rat \<Rightarrow> dist" where
  "dist_add NegInf d = NegInf"
| "dist_add (Fin x) d = Fin (x + d)"

text \<open>\<^verbatim>\<open>a > b\<close> on distances.\<close>

fun dist_gt :: "dist \<Rightarrow> dist \<Rightarrow> bool" where
  "dist_gt NegInf b = False"
| "dist_gt (Fin x) NegInf = True"
| "dist_gt (Fin x) (Fin y) = (y < x)"

text \<open>A \<^verbatim>\<open>for\<close> loop whose body may raise: the first error leaves the loop.\<close>

fun for_loop :: "('a \<Rightarrow> 's \<Rightarrow> error + 's) \<Rightarrow> 'a list \<Rightarrow> 's \<Rightarrow> error + 's" where
  "for_loop body [] s = Inr s"
| "for_loop body (x # xs) s =
     (case body x s of Inl e \<Rightarrow> Inl e | Inr s' \<Rightarrow> for_loop body xs s')"

subsection \<open>The graph: \<^verbatim>\<open>nx.DiGraph\<close>\<close>

text \<open>
  A \<^verbatim>\<open>DiGraph\<close> stores its nodes and, per node, its successors in dictionaries, so
  both are iterated in insertion order and hold no duplicates. The model keeps the
  nodes and the edges as lists in insertion order.
\<close>

record DiGraph =
  nodes :: "string list"
  edges :: "(string \<times> string) list"

definition empty_graph :: DiGraph where
  "empty_graph = \<lparr>nodes = [], edges = []\<rparr>"

definition add_node :: "DiGraph \<Rightarrow> string \<Rightarrow> DiGraph" where
  "add_node g n = (if n \<in> set (nodes g) then g else g\<lparr>nodes := nodes g @ [n]\<rparr>)"

definition add_edge :: "DiGraph \<Rightarrow> string \<Rightarrow> string \<Rightarrow> DiGraph" where
  "add_edge g u v =
     (let g' = add_node (add_node g u) v
      in if (u, v) \<in> set (edges g') then g' else g'\<lparr>edges := edges g' @ [(u, v)]\<rparr>)"

definition successors :: "DiGraph \<Rightarrow> string \<Rightarrow> string list" where
  "successors g n = map snd (filter (\<lambda>e. fst e = n) (edges g))"

definition in_degree :: "DiGraph \<Rightarrow> string \<Rightarrow> int" where
  "in_degree g v = int (length (filter (\<lambda>e. snd e = v) (edges g)))"

text \<open>The invariant of the library's graph object.\<close>

definition wf_graph :: "DiGraph \<Rightarrow> bool" where
  "wf_graph g \<longleftrightarrow>
     distinct (nodes g) \<and> distinct (edges g) \<and>
     list_all (\<lambda>e. fst e \<in> set (nodes g) \<and> snd e \<in> set (nodes g)) (edges g)"

text \<open>A directed cycle: some node reaches itself along one edge or more.\<close>

definition has_cycle :: "DiGraph \<Rightarrow> bool" where
  "has_cycle g \<longleftrightarrow> \<not> acyclic (set (edges g))"

subsection \<open>\<^verbatim>\<open>nx.topological_sort\<close>\<close>

text \<open>
  NetworkX is not part of the repository; the model follows the library's own code
  (\<^verbatim>\<open>topological_generations\<close>, NetworkX 2.6 and later), and the section on its
  correctness proves what the claims need of it: a topological order on an acyclic
  graph, \<^verbatim>\<open>NetworkXUnfeasible\<close> on a cyclic one.
  The library sorts by generations (Kahn's algorithm): \<^verbatim>\<open>indegree_map\<close> holds the
  nodes of positive in-degree, \<^verbatim>\<open>zero_indegree\<close> the current generation. Each node
  of the generation lowers the count of its successors; a successor whose count
  reaches zero leaves the map and joins the next generation. When no generation is
  left and the map is not empty, \<^verbatim>\<open>NetworkXUnfeasible\<close> is raised.
\<close>

type_synonym indegree_map = "(string \<times> int) list"

definition lower_indegree ::
  "string \<Rightarrow> indegree_map \<times> string list \<Rightarrow> error + indegree_map \<times> string list" where
  "lower_indegree child st =
     (case st of (indegree_map, zero_indegree) \<Rightarrow>
        (case map_of indegree_map child of
           None \<Rightarrow> Inl RuntimeError
         | Some d \<Rightarrow>
             if d - 1 = 0
             then Inr (AList.delete child indegree_map, zero_indegree @ [child])
             else Inr (AList.update child (d - 1) indegree_map, zero_indegree)))"

definition release_node ::
  "DiGraph \<Rightarrow> string \<Rightarrow> indegree_map \<times> string list \<Rightarrow> error + indegree_map \<times> string list" where
  "release_node g node st =
     (if node \<notin> set (nodes g) then Inl RuntimeError
      else for_loop lower_indegree (successors g node) st)"

function topological_generations ::
  "DiGraph \<Rightarrow> indegree_map \<Rightarrow> string list \<Rightarrow> string list \<Rightarrow> error + string list" where
  "topological_generations g indegree_map zero_indegree yielded =
     (if zero_indegree = []
      then (if indegree_map = [] then Inr yielded else Inl NetworkXUnfeasible)
      else (case for_loop (release_node g) zero_indegree (indegree_map, []) of
              Inl e \<Rightarrow> Inl e
            | Inr (indegree_map', zero_indegree') \<Rightarrow>
                topological_generations g indegree_map' zero_indegree' (yielded @ zero_indegree)))"
  by pat_completeness auto

definition topological_sort :: "DiGraph \<Rightarrow> error + string list" where
  "topological_sort g =
     topological_generations g
       (map (\<lambda>v. (v, in_degree g v)) (filter (\<lambda>v. in_degree g v > 0) (nodes g)))
       (filter (\<lambda>v. in_degree g v = 0) (nodes g))
       []"

subsection \<open>The circuit\<close>

record DigitalCircuit =
  delays :: "string \<rightharpoonup> rat"
  graph :: DiGraph
  node_types :: "string \<rightharpoonup> string"

definition default_delays :: "string \<rightharpoonup> rat" where
  "default_delays =
     map_of [(''ADD'', 1), (''MUL'', 1), (''REG'', 1 / 5), (''MUX'', 1),
             (''INPUT'', 0), (''OUTPUT'', 0)]"

text \<open>\<^verbatim>\<open>DigitalCircuit.__init__\<close>\<close>

definition init_circuit :: DigitalCircuit where
  "init_circuit = \<lparr>delays = default_delays, graph = empty_graph, node_types = Map.empty\<rparr>"

text \<open>
  The body of the loop of \<^verbatim>\<open>parse_circuit\<close> for one line already split into its
  component type, its node id and its input nodes.
\<close>

definition declare_component ::
  "string \<Rightarrow> string \<Rightarrow> string list \<Rightarrow> DigitalCircuit \<Rightarrow> DigitalCircuit" where
  "declare_component node_type node_id input_nodes c =
     (let c' = c\<lparr>graph := add_node (graph c) node_id,
                 node_types := (node_types c)(node_id \<mapsto> node_type)\<rparr>
      in fold (\<lambda>input_node c. c\<lparr>graph := add_edge (graph c) input_node node_id\<rparr>)
           input_nodes c')"

definition identify_node_type :: "DigitalCircuit \<Rightarrow> string \<Rightarrow> string" where
  "identify_node_type c node_id =
     (case node_types c node_id of None \<Rightarrow> ''UNKNOWN'' | Some t \<Rightarrow> t)"

text \<open>\<^verbatim>\<open>self.delays.get(self.identify_node_type(node), 0.0)\<close>\<close>

definition node_delay :: "DigitalCircuit \<Rightarrow> string \<Rightarrow> rat" where
  "node_delay c node =
     (case delays c (identify_node_type c node) of None \<Rightarrow> 0 | Some d \<Rightarrow> d)"

definition calculate_path_delay :: "DigitalCircuit \<Rightarrow> string list \<Rightarrow> rat" where
  "calculate_path_delay c path = foldl (\<lambda>total_delay node. total_delay + node_delay c node) 0 path"

subsection \<open>\<^verbatim>\<open>find_critical_path\<close>\<close>

type_synonym distances = "string \<rightharpoonup> dist"
type_synonym predecessors = "string \<rightharpoonup> string option"

text \<open>Lines 85 to 91: every node at \<^verbatim>\<open>-inf\<close> with no predecessor, then INPUT nodes at 0.\<close>

definition init_distances :: "DigitalCircuit \<Rightarrow> distances" where
  "init_distances c =
     fold (\<lambda>node d. if identify_node_type c node = ''INPUT'' then d(node \<mapsto> Fin 0) else d)
       (nodes (graph c))
       (map_of (map (\<lambda>node. (node, NegInf)) (nodes (graph c))))"

definition init_predecessors :: "DigitalCircuit \<Rightarrow> predecessors" where
  "init_predecessors c = map_of (map (\<lambda>node. (node, None)) (nodes (graph c)))"

text \<open>Lines 97 to 100: one relaxation of the edge from \<open>node\<close> to \<open>successor\<close>.\<close>

definition relax ::
  "DigitalCircuit \<Rightarrow> string \<Rightarrow> string \<Rightarrow> distances \<times> predecessors
     \<Rightarrow> error + distances \<times> predecessors" where
  "relax c node successor st =
     (case st of (distances, predecessors) \<Rightarrow>
        (case distances node of
           None \<Rightarrow> Inl KeyError
         | Some dn \<Rightarrow>
             (let new_distance = dist_add dn (node_delay c node)
              in case distances successor of
                   None \<Rightarrow> Inl KeyError
                 | Some ds \<Rightarrow>
                     if dist_gt new_distance ds
                     then Inr (distances(successor \<mapsto> new_distance),
                               predecessors(successor \<mapsto> Some node))
                     else Inr (distances, predecessors))))"

text \<open>Lines 94 to 100: the relaxation of every edge, sources in topological order.\<close>

definition longest_paths ::
  "DigitalCircuit \<Rightarrow> string list \<Rightarrow> error + distances \<times> predecessors" where
  "longest_paths c topo_sort =
     for_loop (\<lambda>node. for_loop (relax c node) (successors (graph c) node)) topo_sort
       (init_distances c, init_predecessors c)"

text \<open>
  Python's \<^verbatim>\<open>max(iterable, key=...)\<close>: \<^verbatim>\<open>ValueError\<close> on an empty iterable; otherwise
  the first item whose key no later key exceeds.
\<close>

fun max_loop :: "('a \<Rightarrow> error + dist) \<Rightarrow> 'a \<Rightarrow> dist \<Rightarrow> 'a list \<Rightarrow> error + 'a" where
  "max_loop key maxitem maxval [] = Inr maxitem"
| "max_loop key maxitem maxval (x # xs) =
     (case key x of
        Inl e \<Rightarrow> Inl e
      | Inr v \<Rightarrow> if dist_gt v maxval then max_loop key x v xs
                 else max_loop key maxitem maxval xs)"

fun max_by_key :: "('a \<Rightarrow> error + dist) \<Rightarrow> 'a list \<Rightarrow> error + 'a" where
  "max_by_key key [] = Inl ValueError"
| "max_by_key key (x # xs) =
     (case key x of Inl e \<Rightarrow> Inl e | Inr v \<Rightarrow> max_loop key x v xs)"

definition distance_of :: "distances \<Rightarrow> string \<Rightarrow> error + dist" where
  "distance_of distances x = (case distances x of None \<Rightarrow> Inl KeyError | Some d \<Rightarrow> Inr d)"

text \<open>Lines 103 to 107.\<close>

definition select_end_node :: "DigitalCircuit \<Rightarrow> distances \<Rightarrow> error + string" where
  "select_end_node c distances =
     max_by_key (distance_of distances)
       (filter (\<lambda>node. identify_node_type c node = ''OUTPUT'') (nodes (graph c)))"

text \<open>
  Lines 112 to 114: the walk along the predecessor links. The loop ends only at a node
  without predecessor, so it is a partial function: \<open>None\<close> is a walk that never ends.
\<close>

partial_function (option) walk_back ::
  "predecessors \<Rightarrow> string option \<Rightarrow> string list \<Rightarrow> (error + string list) option" where
  "walk_back predecessors current critical_path =
     (case current of
        None \<Rightarrow> Some (Inr critical_path)
      | Some node \<Rightarrow>
          (case predecessors node of
             None \<Rightarrow> Some (Inl KeyError)
           | Some p \<Rightarrow> walk_back predecessors p (critical_path @ [node])))"

text \<open>
  What a call leaves behind: the circuit object after the call, the lines printed, and
  the value returned or the exception raised.
\<close>

type_synonym outcome = "DigitalCircuit \<times> string list \<times> (error + string list \<times> dist)"

definition find_critical_path :: "DigitalCircuit \<Rightarrow> outcome option" where
  "find_critical_path c =
     (case topological_sort (graph c) of
        Inl NetworkXUnfeasible \<Rightarrow> Some (c, [''Error: Circuit contains cycles''], Inr ([], Fin 0))
      | Inl e \<Rightarrow> Some (c, [], Inl e)
      | Inr topo_sort \<Rightarrow>
          (case longest_paths c topo_sort of
             Inl e \<Rightarrow> Some (c, [], Inl e)
           | Inr (distances, predecessors) \<Rightarrow>
               (case select_end_node c distances of
                  Inl e \<Rightarrow> Some (c, [], Inl e)
                | Inr end_node \<Rightarrow>
                    (case walk_back predecessors (Some end_node) [] of
                       None \<Rightarrow> None
                     | Some (Inl e) \<Rightarrow> Some (c, [], Inl e)
                     | Some (Inr critical_path) \<Rightarrow>
                         (case distances end_node of
                            None \<Rightarrow> Some (c, [], Inl KeyError)
                          | Some d \<Rightarrow> Some (c, [], Inr (rev critical_path, d)))))))"

subsection \<open>Notions used to state the properties\<close>

text \<open>The index of the first occurrence of \<open>x\<close> in \<open>xs\<close>.\<close>

definition position :: "'a list \<Rightarrow> 'a \<Rightarrow> nat" where
  "position xs x = length (takeWhile (\<lambda>y. y \<noteq> x) xs)"

text \<open>A topological order lists every node once, and every edge points forward in it.\<close>

definition topological_order :: "DiGraph \<Rightarrow> string list \<Rightarrow> bool" where
  "topological_order g xs \<longleftrightarrow>
     distinct xs \<and> set xs = set (nodes g) \<and>
     list_all (\<lambda>e. position xs (fst e) < position xs (snd e)) (edges g)"

text \<open>
  The state of the library's sort, for its correctness proof: \<open>X\<close> are the edges whose
  source has already lowered the count of their target, \<open>pending g X v\<close> the incoming
  edges of \<open>v\<close> not yet among them, and \<open>L\<close> the nodes released so far, in order.
\<close>

definition pending :: "DiGraph \<Rightarrow> (string \<times> string) set \<Rightarrow> string \<Rightarrow> nat" where
  "pending g X v = card {e \<in> set (edges g). snd e = v \<and> e \<notin> X}"

definition out_edges :: "DiGraph \<Rightarrow> string set \<Rightarrow> (string \<times> string) set" where
  "out_edges g S = {e \<in> set (edges g). fst e \<in> S}"

definition kahn_inv ::
  "DiGraph \<Rightarrow> (string \<times> string) set \<Rightarrow> indegree_map \<Rightarrow> string list \<Rightarrow> bool" where
  "kahn_inv g X im L \<longleftrightarrow>
     distinct L \<and> set L \<subseteq> set (nodes g) \<and> fst ` set im \<subseteq> set (nodes g) \<and>
     (\<forall>v\<in>set (nodes g).
        if pending g X v = 0 then map_of im v = None \<and> v \<in> set L
        else map_of im v = Some (int (pending g X v)) \<and> v \<notin> set L) \<and>
     (\<forall>e\<in>X. fst e \<in> set L) \<and>
     (\<forall>e\<in>set (edges g). snd e \<in> set L \<longrightarrow>
        fst e \<in> set L \<and> position L (fst e) < position L (snd e))"

text \<open>A node is reachable from an input when a path of zero or more edges leads from an
  INPUT node of the graph to it.\<close>

definition reachable_from_input :: "DigitalCircuit \<Rightarrow> string \<Rightarrow> bool" where
  "reachable_from_input c n \<longleftrightarrow>
     (\<exists>i\<in>set (nodes (graph c)).
        identify_node_type c i = ''INPUT'' \<and> (i = n \<or> (i, n) \<in> (set (edges (graph c)))\<^sup>+))"

text \<open>
  The state of the relaxation, for its correctness proof: \<open>X\<close> are the edges relaxed so
  far. Predecessor links follow relaxed edges and record how the distance was
  reached; a node without predecessor keeps its initial distance; finite distances
  are exactly those handed on from the inputs along relaxed edges.
\<close>

definition dp_inv ::
  "DigitalCircuit \<Rightarrow> (string \<times> string) set \<Rightarrow> distances \<times> predecessors \<Rightarrow> bool" where
  "dp_inv c X st \<longleftrightarrow>
     (case st of (D, Pr) \<Rightarrow>
        dom D = set (nodes (graph c)) \<and> dom Pr = set (nodes (graph c)) \<and>
        X \<subseteq> set (edges (graph c)) \<and>
        (\<forall>n p. Pr n = Some (Some p) \<longrightarrow>
           (p, n) \<in> X \<and>
           (\<exists>dp x. D p = Some dp \<and> D n = Some (Fin x) \<and> dist_add dp (node_delay c p) = Fin x)) \<and>
        (\<forall>n. Pr n = Some None \<longrightarrow> D n = init_distances c n) \<and>
        (\<forall>n x. D n = Some (Fin x) \<longrightarrow> reachable_from_input c n) \<and>
        (\<forall>n. init_distances c n = Some (Fin 0) \<longrightarrow> (\<exists>x. D n = Some (Fin x))) \<and>
        (\<forall>e\<in>X. \<forall>x. D (fst e) = Some (Fin x) \<longrightarrow> (\<exists>y. D (snd e) = Some (Fin y))))"

text \<open>\<open>pred_chain Pr n ch\<close>: \<open>ch\<close> are the predecessors of \<open>n\<close>, nearest first, up to
  a node without predecessor.\<close>

fun pred_chain :: "predecessors \<Rightarrow> string \<Rightarrow> string list \<Rightarrow> bool" where
  "pred_chain Pr n [] \<longleftrightarrow> Pr n = Some None"
| "pred_chain Pr n (p # ch) \<longleftrightarrow> Pr n = Some (Some p) \<and> pred_chain Pr p ch"

text \<open>Consecutive elements of a list are joined by edges.\<close>

fun linked :: "('a \<times> 'a) set \<Rightarrow> 'a list \<Rightarrow> bool" where
  "linked E (x # y # zs) \<longleftrightarrow> (x, y) \<in> E \<and> linked E (y # zs)"
| "linked E _ \<longleftrightarrow> True"

text \<open>The candidates of \<^verbatim>\<open>max\<close> in \<^verbatim>\<open>find_critical_path\<close>.\<close>

definition output_nodes :: "DigitalCircuit \<Rightarrow> string list" where
  "output_nodes c = filter (\<lambda>node. identify_node_type c node = ''OUTPUT'') (nodes (graph c))"

declare walk_back.simps [code]

subsection \<open>Example circuits\<close>

text \<open>The linear chain: an input, two adders and an output, declared in this order.\<close>

definition linear_chain :: DigitalCircuit where
  "linear_chain =
     declare_component ''OUTPUT'' ''O1'' [''A2'']
       (declare_component ''ADD'' ''A2'' [''A1'']
         (declare_component ''ADD'' ''A1'' [''I1'']
           (declare_component ''INPUT'' ''I1'' [] init_circuit)))"

text \<open>Two adders feeding each other.\<close>

definition two_cycle :: DigitalCircuit where
  "two_cycle =
     declare_component ''ADD'' ''B'' [''A'']
       (declare_component ''ADD'' ''A'' [''B''] init_circuit)"

text \<open>An input and an adder, no output.\<close>

definition no_output :: DigitalCircuit where
  "no_output =
     declare_component ''ADD'' ''A1'' [''I1'']
       (declare_component ''INPUT'' ''I1'' [] init_circuit)"

text \<open>
  An output fed only by \<open>X1\<close>, a node that no line declares (its type is UNKNOWN), beside
  an input and an adder: no input reaches the output.
\<close>

definition lone_output :: DigitalCircuit where
  "lone_output =
     declare_component ''OUTPUT'' ''O1'' [''X1'']
       (declare_component ''ADD'' ''A1'' [''I1'']
         (declare_component ''INPUT'' ''I1'' [] init_circuit))"

text \<open>The output \<open>O2\<close>, declared first, is fed only by the undeclared \<open>X1\<close>; the output
  \<open>O1\<close> is fed by the adder behind the input.\<close>

definition two_outputs :: DigitalCircuit where
  "two_outputs =
     declare_component ''OUTPUT'' ''O1'' [''A1'']
       (declare_component ''ADD'' ''A1'' [''I1'']
         (declare_component ''INPUT'' ''I1'' []
           (declare_component ''OUTPUT'' ''O2'' [''X1''] init_circuit)))"

section \<open>Loops and termination\<close>

lemma for_loop_invariant:
  assumes "for_loop body xs s = Inr s'" and "I s"
    and "\<And>x t t'. x \<in> set xs \<Longrightarrow> I t \<Longrightarrow> body x t = Inr t' \<Longrightarrow> I t'"
  shows "I s'"
  using assms
proof (induction xs arbitrary: s)
  case Nil
  then show ?case by simp
next
  case (Cons x xs)
  from Cons.prems(1) obtain t where t: "body x s = Inr t" and rest: "for_loop body xs t = Inr s'"
    by (auto split: sum.splits)
  have "I t" using Cons.prems(3) [of x s t] Cons.prems(2) t by simp
  show ?case
  proof (rule Cons.IH [OF rest \<open>I t\<close>])
    fix y u u'
    assume "y \<in> set xs" "I u" "body y u = Inr u'"
    then show "I u'" using Cons.prems(3) [of y u u'] by simp
  qed
qed

lemma length_delete_present:
  "map_of al k = Some d \<Longrightarrow> length (AList.delete k al) < length al"
  by (induction al) (auto simp: less_Suc_eq_le AList.length_delete_le split: if_splits)

lemma length_update_present:
  "map_of al k = Some d \<Longrightarrow> length (AList.update k v al) = length al"
  by (induction al) (auto split: if_splits)

lemma lower_indegree_size:
  "lower_indegree child st = Inr st' \<Longrightarrow>
   length (fst st') + length (snd st') \<le> length (fst st) + length (snd st)"
  using length_delete_present [of "fst st" child]
  by (cases st) (auto simp: lower_indegree_def length_update_present split: option.splits if_splits)

lemma release_node_size:
  assumes "release_node g node st = Inr st'"
  shows "length (fst st') + length (snd st') \<le> length (fst st) + length (snd st)"
proof -
  from assms have run: "for_loop lower_indegree (successors g node) st = Inr st'"
    by (simp add: release_node_def split: if_splits)
  show ?thesis
    by (rule for_loop_invariant
          [OF run, where I = "\<lambda>t. length (fst t) + length (snd t) \<le> length (fst st) + length (snd st)"])
       (auto dest: lower_indegree_size)
qed

lemma generation_size:
  assumes "for_loop (release_node g) zs st = Inr st'"
  shows "length (fst st') + length (snd st') \<le> length (fst st) + length (snd st)"
  by (rule for_loop_invariant
        [OF assms, where I = "\<lambda>t. length (fst t) + length (snd t) \<le> length (fst st) + length (snd st)"])
     (auto dest: release_node_size)

text \<open>
  Every generation that is followed by another one has taken at least one node out of
  the in-degree map, so the library's loop ends on every input.
\<close>

termination topological_generations
proof (relation "measure (\<lambda>(g, indegree_map, zero_indegree, yielded).
                   length indegree_map + (if zero_indegree = [] then 0 else 1))", goal_cases)
  case 1
  show ?case by simp
next
  case (2 g indegree_map zero_indegree yielded st indegree_map' zero_indegree')
  from generation_size [OF 2(2)] 2(1,3) show ?case
    by (cases zero_indegree') auto
qed

section \<open>The library's topological sort is correct\<close>

lemma position_append_in: "x \<in> set xs \<Longrightarrow> position (xs @ ys) x = position xs x"
  by (simp add: position_def)

lemma position_append_notin: "x \<notin> set xs \<Longrightarrow> position (xs @ ys) x = length xs + position ys x"
  unfolding position_def by (induction xs) auto

lemma position_less_length: "x \<in> set xs \<Longrightarrow> position xs x < length xs"
  unfolding position_def by (induction xs) auto

lemma position_order_acyclic:
  assumes "\<forall>e\<in>E. position xs (fst e) < position xs (snd e)"
  shows "acyclic E"
proof -
  have "E \<subseteq> inv_image less_than (position xs)"
    using assms by (auto simp: inv_image_def)
  then have "wf E"
    by (rule wf_subset [OF wf_inv_image [OF wf_less_than]])
  then show ?thesis by (rule wf_acyclic)
qed

lemma topological_order_acyclic:
  "topological_order g xs \<Longrightarrow> acyclic (set (edges g))"
  by (rule position_order_acyclic [of _ xs]) (simp add: topological_order_def list_all_iff)

lemma closed_under_predecessors_cyclic:
  assumes "finite S" and "S \<noteq> {}" and "\<forall>v\<in>S. \<exists>u\<in>S. (u, v) \<in> E"
  shows "\<not> acyclic E"
proof
  assume "acyclic E"
  then have "acyclic (E \<inter> S \<times> S)" by (rule acyclic_subset) blast
  moreover have "finite (E \<inter> S \<times> S)" using assms(1) by simp
  ultimately have "wf (E \<inter> S \<times> S)" by (simp add: finite_acyclic_wf)
  moreover obtain x where "x \<in> S" using assms(2) by blast
  ultimately obtain z where "z \<in> S" and least: "\<And>y. (y, z) \<in> E \<inter> S \<times> S \<Longrightarrow> y \<notin> S"
    by (rule wfE_min) blast
  then show False using assms(3) by blast
qed

lemma pending_insert_same:
  assumes "(q, c) \<in> set (edges g)" "(q, c) \<notin> X"
  shows "pending g X c = Suc (pending g (insert (q, c) X) c)"
proof -
  let ?A = "{e \<in> set (edges g). snd e = c \<and> e \<notin> X}"
  have fin: "finite ?A" by simp
  have mem: "(q, c) \<in> ?A" using assms by simp
  have "{e \<in> set (edges g). snd e = c \<and> e \<notin> insert (q, c) X} = ?A - {(q, c)}" by auto
  then have "pending g (insert (q, c) X) c = card (?A - {(q, c)})" by (simp add: pending_def)
  also have "\<dots> = card ?A - 1" using fin mem by simp
  finally show ?thesis using card_gt_0_iff [of ?A] fin mem by (auto simp: pending_def)
qed

lemma pending_insert_other:
  "v \<noteq> c \<Longrightarrow> pending g (insert (q, c) X) v = pending g X v"
  unfolding pending_def by (rule arg_cong [where f = card]) auto


lemma kahn_invD:
  assumes "kahn_inv g X im L"
  shows "distinct L" and "set L \<subseteq> set (nodes g)" and "fst ` set im \<subseteq> set (nodes g)"
    and "\<And>v. v \<in> set (nodes g) \<Longrightarrow> pending g X v = 0 \<Longrightarrow> map_of im v = None \<and> v \<in> set L"
    and "\<And>v. v \<in> set (nodes g) \<Longrightarrow> pending g X v \<noteq> 0 \<Longrightarrow>
           map_of im v = Some (int (pending g X v)) \<and> v \<notin> set L"
    and "\<And>e. e \<in> X \<Longrightarrow> fst e \<in> set L"
    and "\<And>e. e \<in> set (edges g) \<Longrightarrow> snd e \<in> set L \<Longrightarrow>
           fst e \<in> set L \<and> position L (fst e) < position L (snd e)"
  using assms unfolding kahn_inv_def by (simp_all split: if_splits)

lemma kahn_invI:
  assumes "distinct L" and "set L \<subseteq> set (nodes g)" and "fst ` set im \<subseteq> set (nodes g)"
    and "\<And>v. v \<in> set (nodes g) \<Longrightarrow> pending g X v = 0 \<Longrightarrow> map_of im v = None \<and> v \<in> set L"
    and "\<And>v. v \<in> set (nodes g) \<Longrightarrow> pending g X v \<noteq> 0 \<Longrightarrow>
           map_of im v = Some (int (pending g X v)) \<and> v \<notin> set L"
    and "\<And>e. e \<in> X \<Longrightarrow> fst e \<in> set L"
    and "\<And>e. e \<in> set (edges g) \<Longrightarrow> snd e \<in> set L \<Longrightarrow>
           fst e \<in> set L \<and> position L (fst e) < position L (snd e)"
  shows "kahn_inv g X im L"
  unfolding kahn_inv_def using assms by auto

lemma pending_zero_processed:
  "pending g X v = 0 \<Longrightarrow> e \<in> set (edges g) \<Longrightarrow> snd e = v \<Longrightarrow> e \<in> X"
  unfolding pending_def by (cases e) auto

lemma kahn_step:
  assumes wf: "wf_graph g" and inv: "kahn_inv g X im (yg @ z)"
    and edge: "(q, c) \<in> set (edges g)" "(q, c) \<notin> X" and q: "q \<in> set (yg @ z)"
  shows "\<exists>im' z'. lower_indegree c (im, z) = Inr (im', z') \<and>
           kahn_inv g (insert (q, c) X) im' (yg @ z')"
proof -
  let ?L = "yg @ z" and ?X = "insert (q, c) X"
  note I = kahn_invD [OF inv]
  have cV: "c \<in> set (nodes g)"
    using wf edge(1) by (auto simp: wf_graph_def list_all_iff)
  define r where "r = pending g ?X c"
  have pc: "pending g X c = Suc r"
    unfolding r_def by (rule pending_insert_same [OF edge])
  have look: "map_of im c = Some (int (Suc r))" and fresh: "c \<notin> set ?L"
    using I(5) [OF cV] pc by simp_all
  have other: "\<And>v. v \<noteq> c \<Longrightarrow> pending g ?X v = pending g X v"
    by (rule pending_insert_other)
  have src: "\<And>e. e \<in> ?X \<Longrightarrow> fst e \<in> set ?L"
    using I(6) q by auto
  show ?thesis
  proof (cases "r = 0")
    case True
    have res: "lower_indegree c (im, z) = Inr (AList.delete c im, z @ [c])"
      using look True by (simp add: lower_indegree_def)
    have "kahn_inv g ?X (AList.delete c im) (yg @ z @ [c])"
    proof (rule kahn_invI)
      show "distinct (yg @ z @ [c])" using I(1) fresh by simp
      show "set (yg @ z @ [c]) \<subseteq> set (nodes g)" using I(2) cV by simp
      show "fst ` set (AList.delete c im) \<subseteq> set (nodes g)"
        using I(3) AList.dom_delete_subset [of c im] by blast
    next
      fix v assume v: "v \<in> set (nodes g)" and p: "pending g ?X v = 0"
      show "map_of (AList.delete c im) v = None \<and> v \<in> set (yg @ z @ [c])"
      proof (cases "v = c")
        case True
        then show ?thesis by (simp add: AList.delete_conv')
      next
        case False
        then show ?thesis using I(4) [OF v] p other [OF False] by (simp add: AList.delete_conv')
      qed
    next
      fix v assume v: "v \<in> set (nodes g)" and p: "pending g ?X v \<noteq> 0"
      then have "v \<noteq> c" using True r_def by auto
      then show "map_of (AList.delete c im) v = Some (int (pending g ?X v)) \<and>
                 v \<notin> set (yg @ z @ [c])"
        using I(5) [OF v] p other [of v] by (simp add: AList.delete_conv')
    next
      fix e assume "e \<in> ?X"
      then show "fst e \<in> set (yg @ z @ [c])" using src [of e] by simp
    next
      fix e assume e: "e \<in> set (edges g)" and tgt: "snd e \<in> set (yg @ z @ [c])"
      show "fst e \<in> set (yg @ z @ [c]) \<and>
            position (yg @ z @ [c]) (fst e) < position (yg @ z @ [c]) (snd e)"
      proof (cases "snd e \<in> set ?L")
        case True
        from I(7) [OF e True] show ?thesis
          using True position_append_in [of _ ?L "[c]"] by simp
      next
        case False
        with tgt have sc: "snd e = c" by simp
        have "e \<in> ?X"
          using pending_zero_processed [of g ?X c e] \<open>r = 0\<close> r_def e sc by simp
        then have fe: "fst e \<in> set ?L" by (rule src)
        have "position (?L @ [c]) (fst e) = position ?L (fst e)"
          using fe by (rule position_append_in)
        moreover have "position ?L (fst e) < length ?L"
          using fe by (rule position_less_length)
        moreover have "position (?L @ [c]) c = length ?L"
          using fresh position_append_notin [of c ?L "[c]"] by (simp add: position_def)
        ultimately show ?thesis using fe sc by simp
      qed
    qed
    with res show ?thesis by blast
  next
    case False
    have res: "lower_indegree c (im, z) = Inr (AList.update c (int r) im, z)"
      using look False by (simp add: lower_indegree_def)
    have "kahn_inv g ?X (AList.update c (int r) im) (yg @ z)"
    proof (rule kahn_invI)
      show "distinct (yg @ z)" by (rule I(1))
      show "set (yg @ z) \<subseteq> set (nodes g)" by (rule I(2))
      show "fst ` set (AList.update c (int r) im) \<subseteq> set (nodes g)"
        using I(3) cV by (simp add: AList.dom_update)
    next
      fix v assume v: "v \<in> set (nodes g)" and p: "pending g ?X v = 0"
      then have "v \<noteq> c" using False r_def by auto
      then show "map_of (AList.update c (int r) im) v = None \<and> v \<in> set (yg @ z)"
        using I(4) [OF v] p other [of v] by (simp add: AList.update_conv')
    next
      fix v assume v: "v \<in> set (nodes g)" and p: "pending g ?X v \<noteq> 0"
      show "map_of (AList.update c (int r) im) v = Some (int (pending g ?X v)) \<and>
            v \<notin> set (yg @ z)"
      proof (cases "v = c")
        case True
        then show ?thesis using fresh r_def by (simp add: AList.update_conv')
      next
        case False
        then show ?thesis using I(5) [OF v] p other [OF False] by (simp add: AList.update_conv')
      qed
    next
      fix e assume "e \<in> ?X"
      then show "fst e \<in> set (yg @ z)" by (rule src)
    next
      fix e assume "e \<in> set (edges g)" and "snd e \<in> set (yg @ z)"
      then show "fst e \<in> set (yg @ z) \<and> position (yg @ z) (fst e) < position (yg @ z) (snd e)"
        by (rule I(7))
    qed
    with res show ?thesis by blast
  qed
qed


lemma kahn_children:
  assumes wf: "wf_graph g" and q: "q \<in> set yg"
  shows "kahn_inv g X im (yg @ z) \<Longrightarrow> distinct cs \<Longrightarrow>
         \<forall>c\<in>set cs. (q, c) \<in> set (edges g) \<and> (q, c) \<notin> X \<Longrightarrow>
         \<exists>im' z'. for_loop lower_indegree cs (im, z) = Inr (im', z') \<and>
           kahn_inv g (X \<union> {q} \<times> set cs) im' (yg @ z')"
proof (induction cs arbitrary: X im z)
  case Nil
  then show ?case by simp
next
  case (Cons c cs)
  from Cons.prems have edge: "(q, c) \<in> set (edges g)" "(q, c) \<notin> X" by simp_all
  from kahn_step [OF wf Cons.prems(1) edge] q
  obtain im1 z1 where step: "lower_indegree c (im, z) = Inr (im1, z1)"
    and inv1: "kahn_inv g (insert (q, c) X) im1 (yg @ z1)" by auto
  have rest: "\<forall>c'\<in>set cs. (q, c') \<in> set (edges g) \<and> (q, c') \<notin> insert (q, c) X"
    using Cons.prems(2,3) by auto
  from Cons.IH [OF inv1 _ rest] Cons.prems(2)
  obtain im' z' where run: "for_loop lower_indegree cs (im1, z1) = Inr (im', z')"
    and inv': "kahn_inv g (insert (q, c) X \<union> {q} \<times> set cs) im' (yg @ z')" by auto
  have "insert (q, c) X \<union> {q} \<times> set cs = X \<union> {q} \<times> set (c # cs)" by auto
  with inv' step run show ?case by simp
qed

lemma set_successors: "set (successors g q) = {c. (q, c) \<in> set (edges g)}"
  by (force simp: successors_def)

lemma distinct_successors: "distinct (edges g) \<Longrightarrow> distinct (successors g q)"
  unfolding successors_def
  by (rule iffD2 [OF distinct_map]) (auto simp: inj_on_def)

lemma out_edges_single: "{q} \<times> set (successors g q) = out_edges g {q}"
  by (auto simp: set_successors out_edges_def)

lemma out_edges_append: "out_edges g (set P) \<union> out_edges g {q} = out_edges g (set (P @ [q]))"
  by (auto simp: out_edges_def)

lemma kahn_release:
  assumes wf: "wf_graph g" and inv: "kahn_inv g X im (yg @ z)" and q: "q \<in> set yg"
    and new: "out_edges g {q} \<inter> X = {}"
  shows "\<exists>im' z'. release_node g q (im, z) = Inr (im', z') \<and>
           kahn_inv g (X \<union> out_edges g {q}) im' (yg @ z')"
proof -
  have "q \<in> set (nodes g)" using kahn_invD(2) [OF inv] q by auto
  moreover have "distinct (successors g q)"
    using wf by (simp add: wf_graph_def distinct_successors)
  moreover have "\<forall>c\<in>set (successors g q). (q, c) \<in> set (edges g) \<and> (q, c) \<notin> X"
    using new by (auto simp: set_successors out_edges_def)
  ultimately show ?thesis
    using kahn_children [OF wf q inv, of "successors g q"]
    by (simp add: release_node_def out_edges_single)
qed

lemma kahn_generation:
  assumes wf: "wf_graph g"
  shows "kahn_inv g (out_edges g (set P)) im (yg @ z) \<Longrightarrow> distinct (P @ gs) \<Longrightarrow>
         set gs \<subseteq> set yg \<Longrightarrow>
         \<exists>im' z'. for_loop (release_node g) gs (im, z) = Inr (im', z') \<and>
           kahn_inv g (out_edges g (set (P @ gs))) im' (yg @ z')"
proof (induction gs arbitrary: P im z)
  case Nil
  then show ?case by simp
next
  case (Cons q gs)
  have new: "out_edges g {q} \<inter> out_edges g (set P) = {}"
    using Cons.prems(2) by (auto simp: out_edges_def)
  from kahn_release [OF wf Cons.prems(1) _ new] Cons.prems(3)
  obtain im1 z1 where step: "release_node g q (im, z) = Inr (im1, z1)"
    and inv1: "kahn_inv g (out_edges g (set (P @ [q]))) im1 (yg @ z1)"
    by (auto simp: out_edges_append)
  from Cons.IH [OF inv1] Cons.prems(2,3)
  obtain im' z' where run: "for_loop (release_node g) gs (im1, z1) = Inr (im', z')"
    and inv': "kahn_inv g (out_edges g (set ((P @ [q]) @ gs))) im' (yg @ z')" by auto
  with step show ?case by simp
qed

lemma kahn_finished:
  assumes wf: "wf_graph g" and inv: "kahn_inv g (out_edges g (set L)) im L"
  shows "(im = [] \<longrightarrow> topological_order g L) \<and> (im \<noteq> [] \<longrightarrow> \<not> acyclic (set (edges g)))"
proof (intro conjI impI)
  note I = kahn_invD [OF inv]
  assume "im = []"
  then have all: "\<And>v. v \<in> set (nodes g) \<Longrightarrow> v \<in> set L"
    using I(4,5) by (metis map_of.simps(1) option.distinct(1))
  have ends: "\<And>e. e \<in> set (edges g) \<Longrightarrow> snd e \<in> set (nodes g)"
    using wf by (auto simp: wf_graph_def list_all_iff)
  show "topological_order g L"
    unfolding topological_order_def list_all_iff
    using I(1,2) all I(7) ends by blast
next
  note I = kahn_invD [OF inv]
  let ?S = "set (nodes g) - set L"
  assume "im \<noteq> []"
  then obtain k where k: "k \<in> fst ` set im" by (cases im) auto
  then have "map_of im k \<noteq> None" by (simp add: map_of_eq_None_iff)
  moreover have kV: "k \<in> set (nodes g)" using k I(3) by blast
  ultimately have "k \<in> ?S" using I(4) [OF kV] I(5) [OF kV]
    by (cases "pending g (out_edges g (set L)) k = 0") auto
  then have "?S \<noteq> {}" by blast
  moreover have "\<forall>v\<in>?S. \<exists>u\<in>?S. (u, v) \<in> set (edges g)"
  proof
    fix v assume v: "v \<in> ?S"
    then have "pending g (out_edges g (set L)) v \<noteq> 0" using I(4) [of v] by auto
    then have "{e \<in> set (edges g). snd e = v \<and> e \<notin> out_edges g (set L)} \<noteq> {}"
      unfolding pending_def by auto
    then obtain e where e: "e \<in> set (edges g)" "snd e = v" "e \<notin> out_edges g (set L)" by blast
    then have "fst e \<notin> set L" by (simp add: out_edges_def)
    moreover have "fst e \<in> set (nodes g)"
      using wf e(1) by (auto simp: wf_graph_def list_all_iff)
    ultimately show "\<exists>u\<in>?S. (u, v) \<in> set (edges g)"
      using e(1,2) by (intro bexI [of _ "fst e"]) auto
  qed
  ultimately show "\<not> acyclic (set (edges g))"
    by (intro closed_under_predecessors_cyclic [of ?S]) auto
qed

lemma kahn_loop:
  "wf_graph g \<Longrightarrow> kahn_inv g (out_edges g (set yielded)) im (yielded @ gen) \<Longrightarrow>
   (\<exists>xs. topological_generations g im gen yielded = Inr xs \<and> topological_order g xs) \<or>
   (topological_generations g im gen yielded = Inl NetworkXUnfeasible \<and>
    \<not> acyclic (set (edges g)))"
proof (induction g im gen yielded rule: topological_generations.induct)
  case (1 g im gen yielded)
  note wf = "1.prems"(1) and inv = "1.prems"(2)
  show ?case
  proof (cases "gen = []")
    case True
    with inv have inv0: "kahn_inv g (out_edges g (set yielded)) im yielded" by simp
    from kahn_finished [OF wf inv0] True show ?thesis by (cases "im = []") simp_all
  next
    case False
    have d: "distinct (yielded @ gen)" using kahn_invD(1) [OF inv] .
    from kahn_generation [OF wf, of yielded im "yielded @ gen" "[]" gen] inv d
    obtain im' z' where run: "for_loop (release_node g) gen (im, []) = Inr (im', z')"
      and inv': "kahn_inv g (out_edges g (set (yielded @ gen))) im' ((yielded @ gen) @ z')"
      by auto
    from "1.IH" [OF False run refl wf inv'] run False show ?thesis by simp
  qed
qed

lemma map_of_indegrees:
  "map_of (map (\<lambda>v. (v, f v)) xs) v = (if v \<in> set xs then Some (f v) else None)"
  by (induction xs) auto

lemma in_degree_pending:
  "distinct (edges g) \<Longrightarrow> in_degree g v = int (pending g {} v)"
proof -
  assume d: "distinct (edges g)"
  have "{e \<in> set (edges g). snd e = v \<and> e \<notin> {}} = set (filter (\<lambda>e. snd e = v) (edges g))"
    by auto
  then show ?thesis
    using distinct_card [OF distinct_filter [OF d, of "\<lambda>e. snd e = v"]]
    by (simp add: in_degree_def pending_def)
qed

lemma kahn_initial:
  assumes wf: "wf_graph g"
  shows "kahn_inv g (out_edges g (set []))
           (map (\<lambda>v. (v, in_degree g v)) (filter (\<lambda>v. in_degree g v > 0) (nodes g)))
           ([] @ filter (\<lambda>v. in_degree g v = 0) (nodes g))"
proof -
  have deg: "\<And>v. in_degree g v = int (pending g {} v)"
    using wf by (simp add: wf_graph_def in_degree_pending)
  have X: "out_edges g (set []) = {}" by (simp add: out_edges_def)
  show ?thesis
    unfolding X
  proof (rule kahn_invI)
    fix e assume e: "e \<in> set (edges g)"
      and "snd e \<in> set ([] @ filter (\<lambda>v. in_degree g v = 0) (nodes g))"
    then have "pending g {} (snd e) = 0" by (simp add: deg)
    then have "e \<in> {}" using e by (intro pending_zero_processed [of g "{}" "snd e"]) auto
    then show "fst e \<in> set ([] @ filter (\<lambda>v. in_degree g v = 0) (nodes g)) \<and>
               position ([] @ filter (\<lambda>v. in_degree g v = 0) (nodes g)) (fst e)
               < position ([] @ filter (\<lambda>v. in_degree g v = 0) (nodes g)) (snd e)" by simp
  qed (use wf in \<open>auto simp: wf_graph_def map_of_indegrees deg image_iff\<close>)
qed

lemma topological_sort_correct:
  assumes wf: "wf_graph g"
  shows "(\<exists>xs. topological_sort g = Inr xs \<and> topological_order g xs \<and> \<not> has_cycle g) \<or>
         (topological_sort g = Inl NetworkXUnfeasible \<and> has_cycle g)"
  using kahn_loop [OF wf kahn_initial [OF wf]] topological_order_acyclic [of g]
  unfolding topological_sort_def has_cycle_def by auto

section \<open>The relaxation\<close>

lemma fold_mark:
  "fold (\<lambda>node d. if P node then d(node \<mapsto> a) else d) xs m
     = (\<lambda>n. if n \<in> set xs \<and> P n then Some a else m n)"
  by (induction xs arbitrary: m) (auto simp: fun_eq_iff)

lemma init_distances_eq:
  "init_distances c n =
     (if n \<in> set (nodes (graph c))
      then Some (if identify_node_type c n = ''INPUT'' then Fin 0 else NegInf) else None)"
  by (simp add: init_distances_def fold_mark map_of_indegrees)

lemma init_predecessors_eq:
  "init_predecessors c n = (if n \<in> set (nodes (graph c)) then Some None else None)"
  by (simp add: init_predecessors_def map_of_indegrees)

lemma dp_invD:
  assumes "dp_inv c X (D, Pr)"
  shows "dom D = set (nodes (graph c))" and "dom Pr = set (nodes (graph c))"
    and "X \<subseteq> set (edges (graph c))"
    and "\<And>n p. Pr n = Some (Some p) \<Longrightarrow>
           (p, n) \<in> X \<and>
           (\<exists>dp x. D p = Some dp \<and> D n = Some (Fin x) \<and> dist_add dp (node_delay c p) = Fin x)"
    and "\<And>n. Pr n = Some None \<Longrightarrow> D n = init_distances c n"
    and "\<And>n x. D n = Some (Fin x) \<Longrightarrow> reachable_from_input c n"
    and "\<And>n. init_distances c n = Some (Fin 0) \<Longrightarrow> \<exists>x. D n = Some (Fin x)"
    and "\<And>e x. e \<in> X \<Longrightarrow> D (fst e) = Some (Fin x) \<Longrightarrow> \<exists>y. D (snd e) = Some (Fin y)"
  using assms unfolding dp_inv_def by simp_all

lemma dp_invI:
  assumes "dom D = set (nodes (graph c))" and "dom Pr = set (nodes (graph c))"
    and "X \<subseteq> set (edges (graph c))"
    and "\<And>n p. Pr n = Some (Some p) \<Longrightarrow>
           (p, n) \<in> X \<and>
           (\<exists>dp x. D p = Some dp \<and> D n = Some (Fin x) \<and> dist_add dp (node_delay c p) = Fin x)"
    and "\<And>n. Pr n = Some None \<Longrightarrow> D n = init_distances c n"
    and "\<And>n x. D n = Some (Fin x) \<Longrightarrow> reachable_from_input c n"
    and "\<And>n. init_distances c n = Some (Fin 0) \<Longrightarrow> \<exists>x. D n = Some (Fin x)"
    and "\<And>e x. e \<in> X \<Longrightarrow> D (fst e) = Some (Fin x) \<Longrightarrow> \<exists>y. D (snd e) = Some (Fin y)"
  shows "dp_inv c X (D, Pr)"
  unfolding dp_inv_def using assms by simp blast

lemma dp_initial: "dp_inv c {} (init_distances c, init_predecessors c)"
proof (rule dp_invI)
  fix n x assume "init_distances c n = Some (Fin x)"
  then have "n \<in> set (nodes (graph c))" "identify_node_type c n = ''INPUT''"
    by (auto simp: init_distances_eq split: if_splits)
  then show "reachable_from_input c n" unfolding reachable_from_input_def by blast
qed (auto simp: init_distances_eq init_predecessors_eq split: if_splits)

lemma reachable_from_input_rtrancl:
  "reachable_from_input c n \<longleftrightarrow>
     (\<exists>i\<in>set (nodes (graph c)).
        identify_node_type c i = ''INPUT'' \<and> (i, n) \<in> (set (edges (graph c)))\<^sup>*)"
  unfolding reachable_from_input_def by (metis rtrancl_eq_or_trancl)

lemma reachable_step:
  "reachable_from_input c q \<Longrightarrow> (q, s) \<in> set (edges (graph c)) \<Longrightarrow> reachable_from_input c s"
  unfolding reachable_from_input_rtrancl by (meson rtrancl.rtrancl_into_rtrancl)

lemma dist_gt_Fin: "dist_gt a b \<Longrightarrow> \<exists>x. a = Fin x"
  by (cases a) auto

lemma dist_add_Fin: "dist_add a d = Fin x \<Longrightarrow> \<exists>y. a = Fin y"
  by (cases a) auto

lemma not_dist_gt_Fin: "\<not> dist_gt (Fin x) b \<Longrightarrow> \<exists>y. b = Fin y"
  by (cases b) auto


lemma dp_step:
  assumes inv: "dp_inv c X (D, Pr)"
    and edge: "(q, s) \<in> set (edges (graph c))"
    and nodes: "q \<in> set (nodes (graph c))" "s \<in> set (nodes (graph c))"
    and neq: "s \<noteq> q" and later: "\<And>t. (s, t) \<notin> X"
  shows "\<exists>st'. relax c q s (D, Pr) = Inr st' \<and> dp_inv c (insert (q, s) X) st'"
proof -
  note I = dp_invD [OF inv]
  obtain dq ds where dq: "D q = Some dq" and ds: "D s = Some ds"
    using I(1) nodes by blast
  let ?new = "dist_add dq (node_delay c q)"
  show ?thesis
  proof (cases "dist_gt ?new ds")
    case True
    then obtain x where x: "?new = Fin x" using dist_gt_Fin by blast
    then obtain y where y: "dq = Fin y" using dist_add_Fin by blast
    let ?D = "D(s \<mapsto> Fin x)" and ?Pr = "Pr(s \<mapsto> Some q)"
    have res: "relax c q s (D, Pr) = Inr (?D, ?Pr)"
      using dq ds True x by (simp add: relax_def)
    have "dp_inv c (insert (q, s) X) (?D, ?Pr)"
    proof (rule dp_invI)
      show "dom ?D = set (nodes (graph c))" using I(1) nodes by auto
      show "dom ?Pr = set (nodes (graph c))" using I(2) nodes by auto
      show "insert (q, s) X \<subseteq> set (edges (graph c))" using I(3) edge by simp
    next
      fix n p assume pr: "?Pr n = Some (Some p)"
      show "(p, n) \<in> insert (q, s) X \<and>
            (\<exists>dp x'. ?D p = Some dp \<and> ?D n = Some (Fin x') \<and>
               dist_add dp (node_delay c p) = Fin x')"
      proof (cases "n = s")
        case True
        with pr have "p = q" by simp
        then show ?thesis using True dq x neq by simp
      next
        case False
        with pr have old: "Pr n = Some (Some p)" by simp
        from I(4) [OF old] later have "p \<noteq> s" by blast
        then show ?thesis using I(4) [OF old] False by simp
      qed
    next
      fix n assume "?Pr n = Some None"
      then have "n \<noteq> s" "Pr n = Some None" by (auto split: if_splits)
      then show "?D n = init_distances c n" using I(5) by simp
    next
      fix n x' assume fin: "?D n = Some (Fin x')"
      show "reachable_from_input c n"
      proof (cases "n = s")
        case True
        have "reachable_from_input c q" using I(6) dq y by simp
        then show ?thesis using True edge by (simp add: reachable_step)
      next
        case False
        then show ?thesis using fin I(6) by simp
      qed
    next
      fix n assume "init_distances c n = Some (Fin 0)"
      then show "\<exists>x'. ?D n = Some (Fin x')" using I(7) [of n] by simp
    next
      fix e x' assume e: "e \<in> insert (q, s) X" and fin: "?D (fst e) = Some (Fin x')"
      show "\<exists>y'. ?D (snd e) = Some (Fin y')"
      proof (cases "e = (q, s)")
        case True
        then show ?thesis by simp
      next
        case False
        with e have eX: "e \<in> X" by simp
        then have "fst e \<noteq> s" using later [of "snd e"] by (cases e) auto
        then show ?thesis using I(8) [OF eX] fin by simp
      qed
    qed
    with res show ?thesis by blast
  next
    case False
    have res: "relax c q s (D, Pr) = Inr (D, Pr)"
      using dq ds False by (simp add: relax_def)
    have "dp_inv c (insert (q, s) X) (D, Pr)"
    proof (rule dp_invI)
      show "insert (q, s) X \<subseteq> set (edges (graph c))" using I(3) edge by simp
    next
      fix n p assume "Pr n = Some (Some p)"
      from I(4) [OF this]
      show "(p, n) \<in> insert (q, s) X \<and>
            (\<exists>dp x. D p = Some dp \<and> D n = Some (Fin x) \<and> dist_add dp (node_delay c p) = Fin x)"
        by blast
    next
      fix e x assume e: "e \<in> insert (q, s) X" and fin: "D (fst e) = Some (Fin x)"
      show "\<exists>y. D (snd e) = Some (Fin y)"
      proof (cases "e = (q, s)")
        case True
        with fin dq have "?new = Fin (x + node_delay c q)" by simp
        with False have "\<exists>y. ds = Fin y" using not_dist_gt_Fin by metis
        then show ?thesis using True ds by simp
      next
        case False
        with e have eX: "e \<in> X" by simp
        then show ?thesis using I(8) [OF eX fin] by simp
      qed
    qed (use I in auto)
    with res show ?thesis by blast
  qed
qed

lemma dp_children:
  assumes q: "q \<in> set (nodes (graph c))"
  shows "dp_inv c X st \<Longrightarrow>
         \<forall>s\<in>set cs. (q, s) \<in> set (edges (graph c)) \<and> s \<in> set (nodes (graph c)) \<and>
            s \<noteq> q \<and> (\<forall>t. (s, t) \<notin> X) \<Longrightarrow>
         \<exists>st'. for_loop (relax c q) cs st = Inr st' \<and> dp_inv c (X \<union> {q} \<times> set cs) st'"
proof (induction cs arbitrary: X st)
  case Nil
  then show ?case by simp
next
  case (Cons s cs)
  obtain D Pr where st: "st = (D, Pr)" by (cases st)
  from Cons.prems(2) have s: "(q, s) \<in> set (edges (graph c))" "s \<in> set (nodes (graph c))"
    "s \<noteq> q" "\<And>t. (s, t) \<notin> X" by simp_all
  from dp_step [OF Cons.prems(1) [unfolded st] s(1) q s(2,3,4)]
  obtain st1 where step: "relax c q s st = Inr st1" and inv1: "dp_inv c (insert (q, s) X) st1"
    unfolding st by blast
  have rest: "\<forall>s'\<in>set cs. (q, s') \<in> set (edges (graph c)) \<and> s' \<in> set (nodes (graph c)) \<and>
                s' \<noteq> q \<and> (\<forall>t. (s', t) \<notin> insert (q, s) X)"
    using Cons.prems(2) by auto
  from Cons.IH [OF inv1 rest]
  obtain st' where run: "for_loop (relax c q) cs st1 = Inr st'"
    and inv': "dp_inv c (insert (q, s) X \<union> {q} \<times> set cs) st'" by blast
  have "insert (q, s) X \<union> {q} \<times> set cs = X \<union> {q} \<times> set (s # cs)" by auto
  with inv' step run show ?case by simp
qed

lemma position_here: "q \<notin> set P \<Longrightarrow> position (P @ q # R) q = length P"
  by (simp add: position_append_notin) (simp add: position_def)

lemma later_not_before:
  assumes "q \<notin> set P" and "position (P @ q # R) q < position (P @ q # R) s"
  shows "s \<notin> set P \<and> s \<noteq> q"
proof -
  have "s \<in> set P \<Longrightarrow> position (P @ q # R) s < length P"
    by (simp add: position_append_in position_less_length)
  then show ?thesis using assms by (auto simp: position_here)
qed

lemma dp_nodes:
  assumes wf: "wf_graph (graph c)"
  shows "dp_inv c (out_edges (graph c) (set P)) st \<Longrightarrow> distinct (P @ R) \<Longrightarrow>
         set (P @ R) \<subseteq> set (nodes (graph c)) \<Longrightarrow>
         \<forall>e\<in>set (edges (graph c)). position (P @ R) (fst e) < position (P @ R) (snd e) \<Longrightarrow>
         \<exists>st'. for_loop (\<lambda>node. for_loop (relax c node) (successors (graph c) node)) R st = Inr st'
           \<and> dp_inv c (out_edges (graph c) (set (P @ R))) st'"
proof (induction R arbitrary: P st)
  case Nil
  then show ?case by simp
next
  case (Cons q R)
  let ?g = "graph c"
  have q: "q \<in> set (nodes ?g)" "q \<notin> set P" using Cons.prems(2,3) by auto
  have "\<forall>s\<in>set (successors ?g q). (q, s) \<in> set (edges ?g) \<and> s \<in> set (nodes ?g) \<and>
          s \<noteq> q \<and> (\<forall>t. (s, t) \<notin> out_edges ?g (set P))"
  proof
    fix s assume "s \<in> set (successors ?g q)"
    then have e: "(q, s) \<in> set (edges ?g)" by (simp add: set_successors)
    then have "position (P @ q # R) q < position (P @ q # R) s" using Cons.prems(4) by force
    from later_not_before [OF q(2) this] e wf
    show "(q, s) \<in> set (edges ?g) \<and> s \<in> set (nodes ?g) \<and>
          s \<noteq> q \<and> (\<forall>t. (s, t) \<notin> out_edges ?g (set P))"
      by (auto simp: out_edges_def wf_graph_def list_all_iff)
  qed
  from dp_children [OF q(1) Cons.prems(1) this]
  obtain st1 where step: "for_loop (relax c q) (successors ?g q) st = Inr st1"
    and inv1: "dp_inv c (out_edges ?g (set (P @ [q]))) st1"
    by (auto simp: out_edges_single out_edges_append)
  from Cons.IH [OF inv1] Cons.prems(2,3,4)
  obtain st' where
    "for_loop (\<lambda>node. for_loop (relax c node) (successors ?g node)) R st1 = Inr st'"
    "dp_inv c (out_edges ?g (set ((P @ [q]) @ R))) st'" by auto
  with step show ?case by simp
qed

lemma out_edges_all:
  "wf_graph g \<Longrightarrow> out_edges g (set (nodes g)) = set (edges g)"
  by (auto simp: out_edges_def wf_graph_def list_all_iff)

lemma longest_paths_correct:
  assumes wf: "wf_graph (graph c)" and topo: "topological_order (graph c) topo_sort"
  shows "\<exists>st. longest_paths c topo_sort = Inr st \<and> dp_inv c (set (edges (graph c))) st"
proof -
  have start: "dp_inv c (out_edges (graph c) (set [])) (init_distances c, init_predecessors c)"
    using dp_initial [of c] by (simp add: out_edges_def)
  from dp_nodes [OF wf start, of topo_sort] topo
  show ?thesis
    unfolding longest_paths_def
    by (auto simp: topological_order_def list_all_iff out_edges_all [OF wf])
qed


section \<open>Selection of the end node\<close>

lemma dist_gt_trans: "dist_gt a b \<Longrightarrow> dist_gt b c \<Longrightarrow> dist_gt a c"
  by (cases a; cases b; cases c) auto

lemma dist_not_gt_trans: "\<not> dist_gt a b \<Longrightarrow> \<not> dist_gt b c \<Longrightarrow> \<not> dist_gt a c"
  by (cases a; cases b; cases c) auto

lemma dist_gt_irrefl: "\<not> dist_gt a a"
  by (cases a) auto

lemma max_loop_correct:
  "key best = Inr bv \<Longrightarrow> \<forall>x\<in>set xs. \<exists>d. key x = Inr d \<Longrightarrow>
   \<exists>m dm. max_loop key best bv xs = Inr m \<and> m \<in> set (best # xs) \<and> key m = Inr dm \<and>
     (\<forall>x\<in>set (best # xs). \<forall>dx. key x = Inr dx \<longrightarrow> \<not> dist_gt dx dm)"
proof (induction xs arbitrary: best bv)
  case Nil
  then show ?case by (auto simp: dist_gt_irrefl)
next
  case (Cons x xs)
  from Cons.prems(2) obtain v where v: "key x = Inr v" by auto
  have keys: "\<forall>y\<in>set xs. \<exists>d. key y = Inr d" using Cons.prems(2) by simp
  show ?case
  proof (cases "dist_gt v bv")
    case True
    from Cons.IH [OF v keys] obtain m dm where m: "max_loop key x v xs = Inr m"
      "m \<in> set (x # xs)" "key m = Inr dm"
      "\<forall>y\<in>set (x # xs). \<forall>dx. key y = Inr dx \<longrightarrow> \<not> dist_gt dx dm" by blast
    from m(4) v have "\<not> dist_gt v dm" by simp
    with True have "\<not> dist_gt bv dm" using dist_gt_trans by blast
    with m v True Cons.prems(1) show ?thesis by auto
  next
    case False
    from Cons.IH [OF Cons.prems(1) keys] obtain m dm where m: "max_loop key best bv xs = Inr m"
      "m \<in> set (best # xs)" "key m = Inr dm"
      "\<forall>y\<in>set (best # xs). \<forall>dx. key y = Inr dx \<longrightarrow> \<not> dist_gt dx dm" by blast
    from m(4) Cons.prems(1) have "\<not> dist_gt bv dm" by simp
    with False have "\<not> dist_gt v dm" using dist_not_gt_trans by blast
    with m v False show ?thesis by auto
  qed
qed

lemma max_by_key_correct:
  assumes "xs \<noteq> []" and "\<forall>x\<in>set xs. \<exists>d. key x = Inr d"
  shows "\<exists>m dm. max_by_key key xs = Inr m \<and> m \<in> set xs \<and> key m = Inr dm \<and>
           (\<forall>x\<in>set xs. \<forall>dx. key x = Inr dx \<longrightarrow> \<not> dist_gt dx dm)"
proof -
  from assms(1) obtain x ys where xs: "xs = x # ys" by (cases xs) auto
  with assms(2) obtain v where v: "key x = Inr v" by auto
  from max_loop_correct [of key x v ys] assms(2) xs v show ?thesis by simp
qed

lemma select_end_node_correct:
  assumes "dom D = set (nodes (graph c))" and "output_nodes c \<noteq> []"
  shows "\<exists>end_node de. select_end_node c D = Inr end_node \<and> end_node \<in> set (output_nodes c) \<and>
           D end_node = Some de \<and>
           (\<forall>x\<in>set (output_nodes c). \<forall>dx. D x = Some dx \<longrightarrow> \<not> dist_gt dx de)"
proof -
  have "\<forall>x\<in>set (output_nodes c). \<exists>d. distance_of D x = Inr d"
    using assms(1) by (auto simp: output_nodes_def distance_of_def split: option.splits)
  from max_by_key_correct [OF assms(2) this]
  show ?thesis
    unfolding select_end_node_def output_nodes_def [symmetric]
    by (fastforce simp: distance_of_def split: option.splits)
qed

lemma select_end_node_none:
  "output_nodes c = [] \<Longrightarrow> select_end_node c D = Inl ValueError"
  by (simp add: select_end_node_def output_nodes_def)

section \<open>The walk along the predecessors\<close>

lemma walk_back_None: "walk_back Pr None path = Some (Inr path)"
  by (subst walk_back.simps) simp

lemma walk_back_Some:
  "walk_back Pr (Some n) path =
     (case Pr n of None \<Rightarrow> Some (Inl KeyError) | Some p \<Rightarrow> walk_back Pr p (path @ [n]))"
  by (subst walk_back.simps) simp

lemma walk_back_terminates:
  assumes inv: "dp_inv c (set (edges (graph c))) (D, Pr)"
    and acyc: "acyclic (set (edges (graph c)))" and wf: "wf_graph (graph c)"
  shows "n \<in> set (nodes (graph c)) \<Longrightarrow>
         \<exists>ch. walk_back Pr (Some n) path = Some (Inr (path @ n # ch)) \<and> pred_chain Pr n ch"
proof -
  note I = dp_invD [OF inv]
  have "wf (set (edges (graph c)))" using acyc by (simp add: finite_acyclic_wf)
  then show "n \<in> set (nodes (graph c)) \<Longrightarrow>
         \<exists>ch. walk_back Pr (Some n) path = Some (Inr (path @ n # ch)) \<and> pred_chain Pr n ch"
  proof (induction n arbitrary: path rule: wf_induct_rule)
    case (less n)
    from less.prems I(2) obtain po where po: "Pr n = Some po" by blast
    show ?case
    proof (cases po)
      case None
      with po show ?thesis by (intro exI [of _ "[]"]) (simp add: walk_back_Some walk_back_None)
    next
      case (Some p)
      with po I(4) [of n p] have e: "(p, n) \<in> set (edges (graph c))" by simp
      then have "p \<in> set (nodes (graph c))"
        using wf by (auto simp: wf_graph_def list_all_iff)
      from less.IH [OF e this, of "path @ [n]"]
      obtain ch where "walk_back Pr (Some p) (path @ [n]) = Some (Inr ((path @ [n]) @ p # ch))"
        "pred_chain Pr p ch" by blast
      with po Some show ?thesis by (intro exI [of _ "p # ch"]) (simp add: walk_back_Some)
    qed
  qed
qed

lemma linked_snoc: "linked E (xs @ [a]) \<Longrightarrow> (a, b) \<in> E \<Longrightarrow> linked E (xs @ [a, b])"
  by (induction E xs rule: linked.induct) auto

lemma linked_nth: "linked E xs \<Longrightarrow> Suc i < length xs \<Longrightarrow> (xs ! i, xs ! Suc i) \<in> E"
proof (induction E xs arbitrary: i rule: linked.induct)
  case (1 E x y zs)
  then show ?case by (cases i) auto
qed auto

lemma chain_linked:
  assumes "\<And>n p. Pr n = Some (Some p) \<Longrightarrow> (p, n) \<in> E"
  shows "pred_chain Pr n ch \<Longrightarrow> linked E (rev ch @ [n])"
proof (induction ch arbitrary: n)
  case Nil
  then show ?case by simp
next
  case (Cons p ch)
  then have "linked E (rev ch @ [p])" "(p, n) \<in> E" using assms by auto
  then show ?case using linked_snoc [of E "rev ch" p n] by simp
qed

lemma chain_start: "pred_chain Pr n ch \<Longrightarrow> Pr (hd (rev ch @ [n])) = Some None"
proof (induction ch arbitrary: n)
  case Nil
  then show ?case by simp
next
  case (Cons p ch)
  then have "Pr (hd (rev ch @ [p])) = Some None" by simp
  moreover have "hd (rev (p # ch) @ [n]) = hd (rev ch @ [p])" by (simp add: hd_append)
  ultimately show ?case by simp
qed

lemma dist_add_zero: "dist_add d 0 = d"
  by (cases d) auto

lemma dist_add_add: "dist_add (dist_add d a) b = dist_add d (b + a)"
  by (cases d) auto

lemma chain_distance:
  assumes inv: "dp_inv c X (D, Pr)"
  shows "pred_chain Pr n ch \<Longrightarrow>
         \<exists>d0. init_distances c (hd (rev ch @ [n])) = Some d0 \<and>
           D n = Some (dist_add d0 (sum_list (map (node_delay c) ch)))"
proof (induction ch arbitrary: n)
  case Nil
  note I = dp_invD [OF inv]
  from Nil have pr: "Pr n = Some None" by simp
  then have "n \<in> set (nodes (graph c))" using I(2) by blast
  then obtain d0 where "D n = Some d0" using I(1) by blast
  moreover from this I(5) [OF pr] have "init_distances c n = Some d0" by simp
  ultimately show ?case by (simp add: dist_add_zero)
next
  case (Cons p ch)
  note I = dp_invD [OF inv]
  from Cons.prems have pr: "Pr n = Some (Some p)" and ch: "pred_chain Pr p ch" by simp_all
  from I(4) [OF pr] obtain dp x where d: "D p = Some dp" "D n = Some (Fin x)"
    "dist_add dp (node_delay c p) = Fin x" by blast
  from Cons.IH [OF ch] obtain d0 where d0: "init_distances c (hd (rev ch @ [p])) = Some d0"
    "D p = Some (dist_add d0 (sum_list (map (node_delay c) ch)))" by blast
  have hd: "hd (rev (p # ch) @ [n]) = hd (rev ch @ [p])" by (simp add: hd_append)
  from d d0 have "dp = dist_add d0 (sum_list (map (node_delay c) ch))" by simp
  with d(3) have "Fin x = dist_add d0 (sum_list (map (node_delay c) (p # ch)))"
    by (simp add: dist_add_add)
  with d(2) d0(1) hd show ?case by simp
qed

section \<open>Path delay\<close>

lemma foldl_add_sum_list:
  "foldl (\<lambda>total x. total + f x) (a::rat) xs = a + sum_list (map f xs)"
  by (induction xs arbitrary: a) (simp_all add: add.assoc)

lemma calculate_path_delay_sum:
  "calculate_path_delay c path = sum_list (map (node_delay c) path)"
  by (simp add: calculate_path_delay_def foldl_add_sum_list)

section \<open>The whole of \<^verbatim>\<open>find_critical_path\<close>\<close>

lemma acyclic_run:
  assumes wf: "wf_graph (graph c)" and acyc: "\<not> has_cycle (graph c)"
  shows "\<exists>topo D Pr. topological_sort (graph c) = Inr topo \<and> topological_order (graph c) topo \<and>
           longest_paths c topo = Inr (D, Pr) \<and> dp_inv c (set (edges (graph c))) (D, Pr)"
proof -
  from topological_sort_correct [OF wf] acyc obtain topo
    where topo: "topological_sort (graph c) = Inr topo" "topological_order (graph c) topo"
    by auto
  from longest_paths_correct [OF wf topo(2)] obtain st
    where "longest_paths c topo = Inr st" "dp_inv c (set (edges (graph c))) st" by blast
  with topo show ?thesis by (cases st) auto
qed

lemma cyclic_result:
  assumes "wf_graph (graph c)" and "has_cycle (graph c)"
  shows "find_critical_path c = Some (c, [''Error: Circuit contains cycles''], Inr ([], Fin 0))"
  using topological_sort_correct [OF assms(1)] assms(2)
  by (auto simp: find_critical_path_def)

lemma no_output_result:
  assumes wf: "wf_graph (graph c)" and acyc: "\<not> has_cycle (graph c)"
    and none: "output_nodes c = []"
  shows "find_critical_path c = Some (c, [], Inl ValueError)"
proof -
  from acyclic_run [OF wf acyc] obtain topo D Pr
    where "topological_sort (graph c) = Inr topo" "longest_paths c topo = Inr (D, Pr)" by blast
  then show ?thesis
    by (simp add: find_critical_path_def select_end_node_none [OF none])
qed

lemma output_result:
  assumes wf: "wf_graph (graph c)" and acyc: "\<not> has_cycle (graph c)"
    and topo: "topological_sort (graph c) = Inr topo"
    and run: "longest_paths c topo = Inr (D, Pr)"
    and inv: "dp_inv c (set (edges (graph c))) (D, Pr)"
    and some: "output_nodes c \<noteq> []"
  shows "\<exists>end_node de ch. select_end_node c D = Inr end_node \<and>
           end_node \<in> set (output_nodes c) \<and> D end_node = Some de \<and>
           (\<forall>x\<in>set (output_nodes c). \<forall>dx. D x = Some dx \<longrightarrow> \<not> dist_gt dx de) \<and>
           pred_chain Pr end_node ch \<and>
           find_critical_path c = Some (c, [], Inr (rev ch @ [end_node], de))"
proof -
  note I = dp_invD [OF inv]
  from select_end_node_correct [OF I(1) some] obtain end_node de
    where sel: "select_end_node c D = Inr end_node" "end_node \<in> set (output_nodes c)"
      "D end_node = Some de"
      "\<forall>x\<in>set (output_nodes c). \<forall>dx. D x = Some dx \<longrightarrow> \<not> dist_gt dx de" by blast
  have "end_node \<in> set (nodes (graph c))" using sel(2) by (simp add: output_nodes_def)
  from walk_back_terminates [OF inv _ wf this, of "[]"] acyc obtain ch
    where walk: "walk_back Pr (Some end_node) [] = Some (Inr (end_node # ch))"
      "pred_chain Pr end_node ch" by (auto simp: has_cycle_def)
  have "find_critical_path c = Some (c, [], Inr (rev ch @ [end_node], de))"
    using topo run sel(1,3) walk(1) by (simp add: find_critical_path_def)
  with sel walk(2) show ?thesis by blast
qed

lemma find_critical_path_total:
  assumes wf: "wf_graph (graph c)"
  shows "\<exists>out r. find_critical_path c = Some (c, out, r)"
proof (cases "has_cycle (graph c)")
  case True
  from cyclic_result [OF wf this] show ?thesis by blast
next
  case False
  show ?thesis
  proof (cases "output_nodes c = []")
    case True
    from no_output_result [OF wf False this] show ?thesis by blast
  next
    case some: False
    from acyclic_run [OF wf False] obtain topo D Pr
      where "topological_sort (graph c) = Inr topo" "longest_paths c topo = Inr (D, Pr)"
        "dp_inv c (set (edges (graph c))) (D, Pr)" by blast
    from output_result [OF wf False this some] show ?thesis by blast
  qed
qed

lemma reachable_finite:
  assumes inv: "dp_inv c (set (edges (graph c))) (D, Pr)" and r: "reachable_from_input c n"
  shows "\<exists>x. D n = Some (Fin x)"
proof -
  note I = dp_invD [OF inv]
  from r obtain i where i: "i \<in> set (nodes (graph c))" "identify_node_type c i = ''INPUT''"
    "(i, n) \<in> (set (edges (graph c)))\<^sup>*"
    unfolding reachable_from_input_rtrancl by blast
  from i(3) show ?thesis
  proof (induction rule: rtrancl_induct)
    case base
    show ?case using I(7) [of i] i(1,2) by (simp add: init_distances_eq)
  next
    case (step y z)
    then show ?case using I(8) [of "(y, z)"] by auto
  qed
qed

lemma unreachable_neg_inf:
  assumes inv: "dp_inv c X (D, Pr)" and n: "n \<in> set (nodes (graph c))"
    and r: "\<not> reachable_from_input c n"
  shows "D n = Some NegInf"
proof -
  note I = dp_invD [OF inv]
  from n I(1) obtain d where d: "D n = Some d" by blast
  with I(6) [of n] r show ?thesis by (cases d) auto
qed

lemma relax_from_neg_inf:
  "D node = Some NegInf \<Longrightarrow> relax c node s (D, Pr) = Inr st' \<Longrightarrow> st' = (D, Pr)"
  by (auto simp: relax_def split: option.splits)

section \<open>Graphs built by parsing\<close>

text \<open>Every graph that \<^verbatim>\<open>parse_circuit\<close> builds satisfies the invariant \<open>wf_graph\<close>.\<close>

lemma wf_add_node: "wf_graph g \<Longrightarrow> wf_graph (add_node g n)"
  by (auto simp: wf_graph_def add_node_def list_all_iff)

lemma wf_add_edge: "wf_graph g \<Longrightarrow> wf_graph (add_edge g u v)"
proof -
  assume "wf_graph g"
  then have w: "wf_graph (add_node (add_node g u) v)" by (intro wf_add_node)
  have "u \<in> set (nodes (add_node (add_node g u) v))" "v \<in> set (nodes (add_node (add_node g u) v))"
    by (auto simp: add_node_def)
  with w show ?thesis
    by (auto simp: wf_graph_def add_edge_def Let_def list_all_iff)
qed

lemma wf_fold_add_edge:
  "wf_graph (graph c) \<Longrightarrow>
   wf_graph (graph (fold (\<lambda>input_node c. c\<lparr>graph := add_edge (graph c) input_node node_id\<rparr>)
     input_nodes c))"
  by (induction input_nodes arbitrary: c) (simp_all add: wf_add_edge)

lemma wf_declare_component:
  "wf_graph (graph c) \<Longrightarrow> wf_graph (graph (declare_component node_type node_id input_nodes c))"
  unfolding declare_component_def Let_def
  by (rule wf_fold_add_edge) (simp add: wf_add_node)

lemma wf_init_circuit: "wf_graph (graph init_circuit)"
  by (simp add: init_circuit_def empty_graph_def wf_graph_def)

section \<open>The claims\<close>

text \<open>
  In the theorems below \<open>wf_graph\<close> is the invariant of the library's graph object,
  which every graph built by \<^verbatim>\<open>parse_circuit\<close> has. A result
  \<open>Some (c', out, r)\<close> of \<open>find_critical_path\<close> says that the call ends, leaves the
  circuit \<open>c'\<close>, has printed the lines \<open>out\<close> and returns or raises \<open>r\<close>.
\<close>

lemma output_nodes_nonempty:
  "output_nodes c \<noteq> [] \<longleftrightarrow>
     (\<exists>n\<in>set (nodes (graph c)). identify_node_type c n = ''OUTPUT'')"
  by (auto simp: output_nodes_def filter_empty_conv)

text \<open>
  C1. On an acyclic graph with an INPUT node and an OUTPUT node, \<^verbatim>\<open>find_critical_path\<close>
  ends and returns a path that is not empty, whose first node has no predecessor in
  the predecessor table, whose last node is the OUTPUT node selected by \<^verbatim>\<open>max\<close>,
  and whose consecutive nodes are joined by edges of the graph.
\<close>

theorem critical_path_well_formed:
  assumes "wf_graph (graph c)" and "\<not> has_cycle (graph c)"
    and "\<exists>n\<in>set (nodes (graph c)). identify_node_type c n = ''INPUT''"
    and "\<exists>n\<in>set (nodes (graph c)). identify_node_type c n = ''OUTPUT''"
  shows "\<exists>topo distances predecessors end_node path total.
           topological_sort (graph c) = Inr topo \<and>
           longest_paths c topo = Inr (distances, predecessors) \<and>
           select_end_node c distances = Inr end_node \<and>
           find_critical_path c = Some (c, [], Inr (path, total)) \<and>
           path \<noteq> [] \<and> predecessors (hd path) = Some None \<and>
           last path = end_node \<and> identify_node_type c end_node = ''OUTPUT'' \<and>
           (\<forall>i. Suc i < length path \<longrightarrow>
              (path ! i, path ! Suc i) \<in> set (edges (graph c)))"
proof -
  from acyclic_run [OF assms(1,2)] obtain topo D Pr
    where run: "topological_sort (graph c) = Inr topo" "longest_paths c topo = Inr (D, Pr)"
      and inv: "dp_inv c (set (edges (graph c))) (D, Pr)" by blast
  have some: "output_nodes c \<noteq> []" using assms(4) by (simp add: output_nodes_nonempty)
  from output_result [OF assms(1,2) run inv some] obtain end_node de ch
    where sel: "select_end_node c D = Inr end_node" "end_node \<in> set (output_nodes c)"
      and ch: "pred_chain Pr end_node ch"
      and res: "find_critical_path c = Some (c, [], Inr (rev ch @ [end_node], de))" by blast
  let ?path = "rev ch @ [end_node]"
  have "linked (set (edges (graph c))) ?path"
    using dp_invD(4) [OF inv] by (intro chain_linked [OF _ ch]) blast
  then have "\<forall>i. Suc i < length ?path \<longrightarrow>
               (?path ! i, ?path ! Suc i) \<in> set (edges (graph c))"
    using linked_nth by blast
  moreover have "Pr (hd ?path) = Some None" using ch by (rule chain_start)
  moreover have "identify_node_type c end_node = ''OUTPUT''"
    using sel(2) by (simp add: output_nodes_def)
  moreover have "?path \<noteq> []" "last ?path = end_node" by simp_all
  ultimately show ?thesis using run sel(1) res by blast
qed

theorem critical_path_well_formed_witness:
  "wf_graph (graph linear_chain) \<and> \<not> has_cycle (graph linear_chain) \<and>
   (\<exists>n\<in>set (nodes (graph linear_chain)). identify_node_type linear_chain n = ''INPUT'') \<and>
   (\<exists>n\<in>set (nodes (graph linear_chain)). identify_node_type linear_chain n = ''OUTPUT'') \<and>
   (\<exists>topo distances predecessors end_node path total.
      topological_sort (graph linear_chain) = Inr topo \<and>
      longest_paths linear_chain topo = Inr (distances, predecessors) \<and>
      select_end_node linear_chain distances = Inr end_node \<and>
      find_critical_path linear_chain = Some (linear_chain, [], Inr (path, total)) \<and>
      path \<noteq> [] \<and> predecessors (hd path) = Some None \<and>
      last path = end_node \<and> identify_node_type linear_chain end_node = ''OUTPUT'' \<and>
      (\<forall>i. Suc i < length path \<longrightarrow>
         (path ! i, path ! Suc i) \<in> set (edges (graph linear_chain))))"
proof -
  have h1: "wf_graph (graph linear_chain)" by code_simp
  have h2: "\<not> has_cycle (graph linear_chain)" unfolding has_cycle_def by code_simp
  have h3: "\<exists>n\<in>set (nodes (graph linear_chain)). identify_node_type linear_chain n = ''INPUT''"
    by code_simp
  have h4: "\<exists>n\<in>set (nodes (graph linear_chain)). identify_node_type linear_chain n = ''OUTPUT''"
    by code_simp
  from critical_path_well_formed [OF h1 h2 h3 h4] h1 h2 h3 h4 show ?thesis by blast
qed

text \<open>
  C2, as stated, fails: on the two-node cycle \<^verbatim>\<open>find_critical_path\<close> does not fail. The
  \<^verbatim>\<open>NetworkXUnfeasible\<close> of the library's sort is caught by the \<^verbatim>\<open>try\<close> of lines 78 to
  82, so the call returns normally and no error reaches the caller.
\<close>

theorem cyclic_graph_no_error_counterexample:
  "has_cycle (graph two_cycle) \<and>
   map_option snd (find_critical_path two_cycle)
     = Some ([''Error: Circuit contains cycles''], Inr ([], Fin 0)) \<and>
   map_option (snd \<circ> snd) (find_critical_path two_cycle) \<noteq> Some (Inl NetworkXUnfeasible)"
  unfolding has_cycle_def by code_simp

text \<open>
  C2, amended. On a graph with a directed cycle the library's sort raises
  \<^verbatim>\<open>NetworkXUnfeasible\<close>; \<^verbatim>\<open>find_critical_path\<close> catches it, raises nothing itself, prints
  the error line and returns the empty path with delay 0. No other result is possible
  on a cyclic graph, so no path that is not empty is ever returned.
\<close>

theorem cyclic_graph_empty_result:
  assumes "wf_graph (graph c)" and "has_cycle (graph c)"
  shows "topological_sort (graph c) = Inl NetworkXUnfeasible \<and>
         find_critical_path c
           = Some (c, [''Error: Circuit contains cycles''], Inr ([], Fin 0))"
  using topological_sort_correct [OF assms(1)] assms(2) cyclic_result [OF assms] by auto

theorem cyclic_graph_empty_result_witness:
  "wf_graph (graph two_cycle) \<and> has_cycle (graph two_cycle) \<and>
   topological_sort (graph two_cycle) = Inl NetworkXUnfeasible \<and>
   find_critical_path two_cycle
     = Some (two_cycle, [''Error: Circuit contains cycles''], Inr ([], Fin 0))"
proof -
  have w: "wf_graph (graph two_cycle)" by code_simp
  have h: "has_cycle (graph two_cycle)" unfolding has_cycle_def by code_simp
  from w h cyclic_graph_empty_result [OF w h] show ?thesis by simp
qed

text \<open>
  C3, as stated, fails: when no input reaches the only output, the path returned is
  the output alone with total delay \<^verbatim>\<open>-inf\<close>, while \<^verbatim>\<open>calculate_path_delay\<close> of that
  path is 0.
\<close>

theorem path_delay_unreachable_output_counterexample:
  "map_option snd (find_critical_path lone_output) = Some ([], Inr ([''O1''], NegInf)) \<and>
   calculate_path_delay lone_output [''O1''] = 0"
  by code_simp

text \<open>
  C3, amended. Whenever \<^verbatim>\<open>find_critical_path\<close> returns a path with a finite total delay,
  and the delay table gives OUTPUT the delay 0 (as the table of the program does),
  \<^verbatim>\<open>calculate_path_delay\<close> of the returned path equals the returned total delay. This
  covers the empty path with delay 0 returned on a cyclic graph.
\<close>

theorem path_delay_equals_total:
  assumes wf: "wf_graph (graph c)" and zero: "delays c ''OUTPUT'' = Some 0"
    and res: "find_critical_path c = Some (c', out, Inr (path, Fin x))"
  shows "calculate_path_delay c path = x"
proof (cases "has_cycle (graph c)")
  case True
  from cyclic_result [OF wf this] res show ?thesis by (simp add: calculate_path_delay_def)
next
  case False
  from acyclic_run [OF wf False] obtain topo D Pr
    where run: "topological_sort (graph c) = Inr topo" "longest_paths c topo = Inr (D, Pr)"
      and inv: "dp_inv c (set (edges (graph c))) (D, Pr)" by blast
  have some: "output_nodes c \<noteq> []"
    using no_output_result [OF wf False] res by auto
  from output_result [OF wf False run inv some] obtain end_node de ch
    where sel: "end_node \<in> set (output_nodes c)" "D end_node = Some de"
      and ch: "pred_chain Pr end_node ch"
      and res': "find_critical_path c = Some (c, [], Inr (rev ch @ [end_node], de))" by blast
  from res res' have path: "path = rev ch @ [end_node]" and de: "de = Fin x" by simp_all
  from chain_distance [OF inv ch] sel(2) de obtain d0
    where d0: "init_distances c (hd (rev ch @ [end_node])) = Some d0"
      "Fin x = dist_add d0 (sum_list (map (node_delay c) ch))" by auto
  from d0(2) obtain y where "d0 = Fin y" using dist_add_Fin by metis
  with d0(1) have "d0 = Fin 0" by (auto simp: init_distances_eq split: if_splits)
  with d0(2) have x: "x = sum_list (map (node_delay c) ch)" by simp
  have "node_delay c end_node = 0"
    using sel(1) zero by (simp add: output_nodes_def node_delay_def)
  then show ?thesis
    unfolding path calculate_path_delay_sum x
    by (simp add: rev_map [symmetric])
qed

theorem path_delay_equals_total_witness:
  "wf_graph (graph linear_chain) \<and> delays linear_chain ''OUTPUT'' = Some 0 \<and>
   find_critical_path linear_chain
     = Some (linear_chain, [], Inr ([''I1'', ''A1'', ''A2'', ''O1''], Fin 2)) \<and>
   calculate_path_delay linear_chain [''I1'', ''A1'', ''A2'', ''O1''] = 2"
proof -
  have h1: "wf_graph (graph linear_chain)" by code_simp
  have h2: "delays linear_chain ''OUTPUT'' = Some 0" by code_simp
  obtain out r where total: "find_critical_path linear_chain = Some (linear_chain, out, r)"
    using find_critical_path_total [OF h1] by blast
  have "map_option snd (find_critical_path linear_chain)
          = Some ([], Inr ([''I1'', ''A1'', ''A2'', ''O1''], Fin 2))" by code_simp
  with total have h3: "find_critical_path linear_chain
     = Some (linear_chain, [], Inr ([''I1'', ''A1'', ''A2'', ''O1''], Fin 2))" by simp
  from path_delay_equals_total [OF h1 h2 h3] h1 h2 h3 show ?thesis by simp
qed

text \<open>
  C4, as stated, fails: the program defines no error of its own for a graph without
  OUTPUT node. What is raised there is the built-in \<^verbatim>\<open>ValueError\<close> of \<^verbatim>\<open>max()\<close> on an
  empty sequence.
\<close>

theorem no_output_value_error_counterexample:
  "output_nodes no_output = [] \<and> \<not> has_cycle (graph no_output) \<and>
   map_option snd (find_critical_path no_output) = Some ([], Inl ValueError)"
  unfolding has_cycle_def by code_simp

text \<open>
  C4, amended. On an acyclic graph without any node of type OUTPUT,
  \<^verbatim>\<open>find_critical_path\<close> prints nothing, returns no path and raises \<^verbatim>\<open>ValueError\<close>.
\<close>

theorem no_output_raises:
  assumes "wf_graph (graph c)" and "\<not> has_cycle (graph c)"
    and "list_all (\<lambda>n. identify_node_type c n \<noteq> ''OUTPUT'') (nodes (graph c))"
  shows "find_critical_path c = Some (c, [], Inl ValueError)"
proof -
  have "output_nodes c = []"
    using assms(3) by (simp add: output_nodes_def filter_empty_conv list_all_iff)
  then show ?thesis by (rule no_output_result [OF assms(1,2)])
qed

theorem no_output_raises_witness:
  "wf_graph (graph no_output) \<and> \<not> has_cycle (graph no_output) \<and>
   list_all (\<lambda>n. identify_node_type no_output n \<noteq> ''OUTPUT'') (nodes (graph no_output)) \<and>
   find_critical_path no_output = Some (no_output, [], Inl ValueError)"
proof -
  have h1: "wf_graph (graph no_output)" by code_simp
  have h2: "\<not> has_cycle (graph no_output)" unfolding has_cycle_def by code_simp
  have h3: "list_all (\<lambda>n. identify_node_type no_output n \<noteq> ''OUTPUT'') (nodes (graph no_output))"
    by code_simp
  from no_output_raises [OF h1 h2 h3] h1 h2 h3 show ?thesis by simp
qed

text \<open>
  C5. A relaxation from a node whose distance is \<^verbatim>\<open>-inf\<close> changes neither table. On an
  acyclic graph in which some input reaches some OUTPUT node, the total delay returned
  is finite, the end node is an OUTPUT node that an input reaches, and every OUTPUT
  node that no input reaches keeps the distance \<^verbatim>\<open>-inf\<close> and is not the end node.
\<close>

theorem unreachable_output_never_selected:
  assumes "wf_graph (graph c)" and "\<not> has_cycle (graph c)"
    and "\<exists>u\<in>set (output_nodes c). reachable_from_input c u"
  shows "(\<forall>D Pr node s st'.
            D node = Some NegInf \<longrightarrow> relax c node s (D, Pr) = Inr st' \<longrightarrow> st' = (D, Pr)) \<and>
         (\<exists>topo distances predecessors end_node path total.
            topological_sort (graph c) = Inr topo \<and>
            longest_paths c topo = Inr (distances, predecessors) \<and>
            select_end_node c distances = Inr end_node \<and>
            find_critical_path c = Some (c, [], Inr (path, Fin total)) \<and>
            path \<noteq> [] \<and> last path = end_node \<and> reachable_from_input c end_node \<and>
            (\<forall>u\<in>set (output_nodes c). \<not> reachable_from_input c u \<longrightarrow>
               distances u = Some NegInf \<and> end_node \<noteq> u))"
proof (intro conjI allI impI)
  fix D Pr node s st'
  assume "D node = Some NegInf" "relax c node s (D, Pr) = Inr st'"
  then show "st' = (D, Pr)" by (rule relax_from_neg_inf)
next
  from acyclic_run [OF assms(1,2)] obtain topo D Pr
    where run: "topological_sort (graph c) = Inr topo" "longest_paths c topo = Inr (D, Pr)"
      and inv: "dp_inv c (set (edges (graph c))) (D, Pr)" by blast
  from assms(3) obtain o1 where o1: "o1 \<in> set (output_nodes c)" "reachable_from_input c o1"
    by blast
  then have some: "output_nodes c \<noteq> []" by auto
  from output_result [OF assms(1,2) run inv some] obtain end_node de ch
    where sel: "select_end_node c D = Inr end_node" "D end_node = Some de"
      and best: "\<forall>x\<in>set (output_nodes c). \<forall>dx. D x = Some dx \<longrightarrow> \<not> dist_gt dx de"
      and res: "find_critical_path c = Some (c, [], Inr (rev ch @ [end_node], de))" by blast
  from reachable_finite [OF inv o1(2)] obtain y where "D o1 = Some (Fin y)" by blast
  with best o1(1) have "\<not> dist_gt (Fin y) de" by blast
  then obtain x where x: "de = Fin x" using not_dist_gt_Fin by blast
  have reach: "reachable_from_input c end_node"
    using dp_invD(6) [OF inv] sel(2) x by blast
  have "\<forall>u\<in>set (output_nodes c). \<not> reachable_from_input c u \<longrightarrow>
          D u = Some NegInf \<and> end_node \<noteq> u"
    using unreachable_neg_inf [OF inv] reach by (auto simp: output_nodes_def)
  with run sel(1) res x reach
  show "\<exists>topo distances predecessors end_node path total.
            topological_sort (graph c) = Inr topo \<and>
            longest_paths c topo = Inr (distances, predecessors) \<and>
            select_end_node c distances = Inr end_node \<and>
            find_critical_path c = Some (c, [], Inr (path, Fin total)) \<and>
            path \<noteq> [] \<and> last path = end_node \<and> reachable_from_input c end_node \<and>
            (\<forall>u\<in>set (output_nodes c). \<not> reachable_from_input c u \<longrightarrow>
               distances u = Some NegInf \<and> end_node \<noteq> u)"
    by (intro exI [of _ topo] exI [of _ D] exI [of _ Pr] exI [of _ end_node]
          exI [of _ "rev ch @ [end_node]"] exI [of _ x]) simp
qed

theorem unreachable_output_never_selected_witness:
  "wf_graph (graph two_outputs) \<and> \<not> has_cycle (graph two_outputs) \<and>
   ''O1'' \<in> set (output_nodes two_outputs) \<and> reachable_from_input two_outputs ''O1'' \<and>
   ''O2'' \<in> set (output_nodes two_outputs) \<and> \<not> reachable_from_input two_outputs ''O2'' \<and>
   (\<exists>topo distances predecessors end_node path total.
      topological_sort (graph two_outputs) = Inr topo \<and>
      longest_paths two_outputs topo = Inr (distances, predecessors) \<and>
      select_end_node two_outputs distances = Inr end_node \<and>
      find_critical_path two_outputs = Some (two_outputs, [], Inr (path, Fin total)) \<and>
      last path = end_node \<and> distances ''O2'' = Some NegInf \<and> end_node \<noteq> ''O2'')"
proof -
  have h1: "wf_graph (graph two_outputs)" by code_simp
  have h2: "\<not> has_cycle (graph two_outputs)" unfolding has_cycle_def by code_simp
  have o1: "''O1'' \<in> set (output_nodes two_outputs)" by code_simp
  have r1: "reachable_from_input two_outputs ''O1''" by code_simp
  have o2: "''O2'' \<in> set (output_nodes two_outputs)" by code_simp
  have r2: "\<not> reachable_from_input two_outputs ''O2''" by code_simp
  have h3: "\<exists>u\<in>set (output_nodes two_outputs). reachable_from_input two_outputs u"
    using o1 r1 by blast
  from conjunct2 [OF unreachable_output_never_selected [OF h1 h2 h3]]
  obtain topo D Pr end_node path total where
    run: "topological_sort (graph two_outputs) = Inr topo"
      "longest_paths two_outputs topo = Inr (D, Pr)"
      "select_end_node two_outputs D = Inr end_node"
      "find_critical_path two_outputs = Some (two_outputs, [], Inr (path, Fin total))"
      "last path = end_node"
    and lose: "\<forall>u\<in>set (output_nodes two_outputs). \<not> reachable_from_input two_outputs u \<longrightarrow>
                 D u = Some NegInf \<and> end_node \<noteq> u"
    by (elim exE conjE)
  from lose o2 r2 have "D ''O2'' = Some NegInf" "end_node \<noteq> ''O2''" by blast+
  with run have "\<exists>topo distances predecessors end_node path total.
      topological_sort (graph two_outputs) = Inr topo \<and>
      longest_paths two_outputs topo = Inr (distances, predecessors) \<and>
      select_end_node two_outputs distances = Inr end_node \<and>
      find_critical_path two_outputs = Some (two_outputs, [], Inr (path, Fin total)) \<and>
      last path = end_node \<and> distances ''O2'' = Some NegInf \<and> end_node \<noteq> ''O2''"
    by (intro exI [of _ topo] exI [of _ D] exI [of _ Pr] exI [of _ end_node]
          exI [of _ path] exI [of _ total]) simp
  with h1 h2 o1 r1 o2 r2 show ?thesis by (intro conjI)
qed

text \<open>
  C6. The linear chain I1 \<rightarrow> A1 \<rightarrow> A2 \<rightarrow> O1 (INPUT, ADD, ADD, OUTPUT) under the default
  delays: \<^verbatim>\<open>find_critical_path\<close> prints nothing and returns the path
  [I1, A1, A2, O1] with total delay 2.
\<close>

theorem linear_chain_critical_path:
  "map_option snd (find_critical_path linear_chain)
     = Some ([], Inr ([''I1'', ''A1'', ''A2'', ''O1''], Fin 2))"
  by code_simp

text \<open>
  C7. A node id that was never given a type is of type UNKNOWN, without any failure;
  and a node whose type has no entry in the delay table counts for nothing in
  \<^verbatim>\<open>calculate_path_delay\<close>: alone its delay is 0, and a path has the same delay with
  and without it.
\<close>

theorem unknown_type_zero_delay:
  "(node_types c node_id = None \<longrightarrow> identify_node_type c node_id = ''UNKNOWN'') \<and>
   (delays c (identify_node_type c n) = None \<longrightarrow>
      calculate_path_delay c [n] = 0 \<and>
      calculate_path_delay c (xs @ n # ys) = calculate_path_delay c (xs @ ys))"
  by (simp add: identify_node_type_def calculate_path_delay_sum node_delay_def)

theorem unknown_type_zero_delay_witness:
  "node_types linear_chain ''X9'' = None \<and>
   identify_node_type linear_chain ''X9'' = ''UNKNOWN'' \<and>
   delays linear_chain (identify_node_type linear_chain ''X9'') = None \<and>
   calculate_path_delay linear_chain [''X9''] = 0 \<and>
   calculate_path_delay linear_chain ([''I1'', ''A1''] @ ''X9'' # [''A2''])
     = calculate_path_delay linear_chain ([''I1'', ''A1''] @ [''A2''])"
proof -
  have types: "node_types linear_chain ''X9'' = None"
    by (simp add: linear_chain_def declare_component_def init_circuit_def)
  have "identify_node_type linear_chain ''X9'' = ''UNKNOWN''"
    using types by (simp add: identify_node_type_def)
  moreover have "delays linear_chain ''UNKNOWN'' = None"
    by (simp add: linear_chain_def declare_component_def init_circuit_def default_delays_def)
  ultimately have table: "delays linear_chain (identify_node_type linear_chain ''X9'') = None"
    by simp
  show ?thesis
    using unknown_type_zero_delay
            [of linear_chain "''X9''" "''X9''" "[''I1'', ''A1'']" "[''A2'']"] types table
    by blast
qed

text \<open>
  C8. A call of \<^verbatim>\<open>find_critical_path\<close> ends, and a second call on the circuit it leaves
  prints the same lines and returns the same path and delay, or raises the same
  error.
\<close>

theorem find_critical_path_idempotent:
  assumes "wf_graph (graph c)"
  shows "\<exists>c' out r. find_critical_path c = Some (c', out, r) \<and>
           find_critical_path c' = Some (c', out, r)"
  using find_critical_path_total [OF assms] by auto

theorem find_critical_path_idempotent_witness:
  "wf_graph (graph two_outputs) \<and>
   (\<exists>c' out r. find_critical_path two_outputs = Some (c', out, r) \<and>
      find_critical_path c' = Some (c', out, r))"
proof -
  have h: "wf_graph (graph two_outputs)" by code_simp
  from find_critical_path_idempotent [OF h] h show ?thesis by blast
qed

text \<open>
  C9. A call of \<^verbatim>\<open>find_critical_path\<close>, on a cyclic graph as on any other, ends and leaves
  the nodes, the edges, the node types and the delay table as they were.
\<close>

theorem find_critical_path_read_only:
  assumes "wf_graph (graph c)"
  shows "\<exists>c' out r. find_critical_path c = Some (c', out, r) \<and>
           nodes (graph c') = nodes (graph c) \<and> edges (graph c') = edges (graph c) \<and>
           node_types c' = node_types c \<and> delays c' = delays c"
  using find_critical_path_total [OF assms] by auto

theorem find_critical_path_read_only_witness:
  "wf_graph (graph two_cycle) \<and> has_cycle (graph two_cycle) \<and>
   (\<exists>c' out r. find_critical_path two_cycle = Some (c', out, r) \<and>
      nodes (graph c') = nodes (graph two_cycle) \<and> edges (graph c') = edges (graph two_cycle) \<and>
      node_types c' = node_types two_cycle \<and> delays c' = delays two_cycle)"
proof -
  have h: "wf_graph (graph two_cycle)" by code_simp
  have cyc: "has_cycle (graph two_cycle)" unfolding has_cycle_def by code_simp
  from find_critical_path_read_only [OF h] h cyc show ?thesis by blast
qed

text \<open>
  C10. On an acyclic graph that has OUTPUT nodes none of which an input reaches,
  \<^verbatim>\<open>find_critical_path\<close> raises nothing: it returns the path made of one OUTPUT node,
  whose predecessor is still none, and the total delay \<^verbatim>\<open>-inf\<close>.
\<close>

theorem unreachable_outputs_single_node:
  assumes "wf_graph (graph c)" and "\<not> has_cycle (graph c)"
    and "output_nodes c \<noteq> []"
    and "\<forall>u\<in>set (output_nodes c). \<not> reachable_from_input c u"
  shows "\<exists>topo distances predecessors end_node.
           topological_sort (graph c) = Inr topo \<and>
           longest_paths c topo = Inr (distances, predecessors) \<and>
           end_node \<in> set (nodes (graph c)) \<and> identify_node_type c end_node = ''OUTPUT'' \<and>
           predecessors end_node = Some None \<and>
           find_critical_path c = Some (c, [], Inr ([end_node], NegInf))"
proof -
  from acyclic_run [OF assms(1,2)] obtain topo D Pr
    where run: "topological_sort (graph c) = Inr topo" "longest_paths c topo = Inr (D, Pr)"
      and inv: "dp_inv c (set (edges (graph c))) (D, Pr)" by blast
  from output_result [OF assms(1,2) run inv assms(3)] obtain end_node de ch
    where sel: "end_node \<in> set (output_nodes c)" "D end_node = Some de"
      and ch: "pred_chain Pr end_node ch"
      and res: "find_critical_path c = Some (c, [], Inr (rev ch @ [end_node], de))" by blast
  have node: "end_node \<in> set (nodes (graph c))" "identify_node_type c end_node = ''OUTPUT''"
    using sel(1) by (simp_all add: output_nodes_def)
  have "D end_node = Some NegInf"
    using unreachable_neg_inf [OF inv node(1)] assms(4) sel(1) by blast
  with sel(2) have de: "de = NegInf" by simp
  have "ch = []"
  proof (cases ch)
    case (Cons p ps)
    with ch have "Pr end_node = Some (Some p)" by simp
    from dp_invD(4) [OF inv this] \<open>D end_node = Some NegInf\<close> show ?thesis by auto
  qed simp
  with ch res de node run show ?thesis by auto
qed

theorem unreachable_outputs_single_node_witness:
  "wf_graph (graph lone_output) \<and> \<not> has_cycle (graph lone_output) \<and>
   output_nodes lone_output \<noteq> [] \<and>
   list_all (\<lambda>u. \<not> reachable_from_input lone_output u) (output_nodes lone_output) \<and>
   (\<exists>topo distances predecessors end_node.
      topological_sort (graph lone_output) = Inr topo \<and>
      longest_paths lone_output topo = Inr (distances, predecessors) \<and>
      end_node \<in> set (nodes (graph lone_output)) \<and>
      identify_node_type lone_output end_node = ''OUTPUT'' \<and>
      predecessors end_node = Some None \<and>
      find_critical_path lone_output = Some (lone_output, [], Inr ([end_node], NegInf)))"
proof -
  have h1: "wf_graph (graph lone_output)" by code_simp
  have h2: "\<not> has_cycle (graph lone_output)" unfolding has_cycle_def by code_simp
  have h3: "output_nodes lone_output \<noteq> []" by code_simp
  have h4: "list_all (\<lambda>u. \<not> reachable_from_input lone_output u) (output_nodes lone_output)"
    by code_simp
  then have h4': "\<forall>u\<in>set (output_nodes lone_output). \<not> reachable_from_input lone_output u"
    by (simp add: list_all_iff)
  from unreachable_outputs_single_node [OF h1 h2 h3 h4'] h1 h2 h3 h4 show ?thesis by blast
qed

end
